theory Spec2Isabelle
  imports Complex_Main "HOL-Library.Sublist"
begin

section \<open>Exceptions\<close>

text \<open>
  The classes that \<^verbatim>\<open>module/device/method/uiautomator_2.py\<close> names in its
  \<^verbatim>\<open>except\<close> clauses. An exception value carries the classes it is an instance of
  (its class and all bases) and its constructor arguments, so that an \<^verbatim>\<open>except C\<close>
  clause is the test \<open>isinstance e C\<close> and the clauses of one \<^verbatim>\<open>try\<close> are tried in
  the order they are written.
\<close>

datatype exn_class =
    BaseException
  | Exception
  | RequestHumanTakeover
  | ConnectionResetError
  | JSONDecodeError
  | AdbError
  | RuntimeError
  | AssertionError
  | BaseError
  | OtherClass string

record exn =
  classes :: "exn_class list"
  args :: "string list"

definition isinstance :: "exn \<Rightarrow> exn_class \<Rightarrow> bool" where
  "isinstance e c = (c \<in> set (classes e))"

text \<open>
  \<^verbatim>\<open>raise RequestHumanTakeover\<close> raises the class without arguments: Python instantiates
  it with an empty argument tuple. The class itself is declared in
  \<^verbatim>\<open>module/exception.py\<close> as a plain subclass of \<^verbatim>\<open>Exception\<close>.
\<close>

definition raise_RequestHumanTakeover :: exn where
  "raise_RequestHumanTakeover =
     \<lparr>classes = [RequestHumanTakeover, Exception, BaseException], args = []\<rparr>"

section \<open>Calls to collaborators and the event history\<close>

text \<open>
  Everything the module does to \<^verbatim>\<open>self\<close>, to the logger and to the device is a call
  to code outside the module. The model records each such call, in order. A history is
  the list of events so far: \<open>Invoke\<close> marks one call \<^verbatim>\<open>func(self, *args, **kwargs)\<close>
  made by \<^verbatim>\<open>retry_wrapper\<close>, \<open>By_wrapper c\<close> is a call made by \<^verbatim>\<open>retry_wrapper\<close>
  itself and \<open>By_func c\<close> a call made inside the wrapped function. The calls of the
  logger, of \<^verbatim>\<open>possible_reasons\<close>, \<^verbatim>\<open>handle_adb_error\<close>, \<^verbatim>\<open>self.sleep\<close>,
  \<^verbatim>\<open>self.adb_connect\<close> and \<^verbatim>\<open>self.install_uiautomator2\<close> are taken to return; the
  calls on \<^verbatim>\<open>self.u2\<close> and the wrapped function may raise.
\<close>

datatype call =
    Adb_connect
  | Install_uiautomator2
  | Handle_adb_error exn
  | Sleep real
  | Logger_info string
  | Logger_error exn
  | Logger_exception exn
  | Logger_critical string
  | Possible_reasons string
  | Touch_down int int
  | Touch_move int int
  | Touch_up int int
  | U2_app_start string

datatype event = Invoke | By_wrapper call | By_func call

text \<open>
  What the module imports and does not define: the two constants and
  \<^verbatim>\<open>handle_adb_error\<close> of \<^verbatim>\<open>module/device/method/utils.py\<close>, \<^verbatim>\<open>point2str\<close> of
  \<^verbatim>\<open>module/base/utils\<close>, and the device behind \<^verbatim>\<open>self.u2\<close>. The device is stateful:
  its answer to a call (\<open>None\<close>: the call returns, \<open>Some e\<close>: it raises \<open>e\<close>) is a
  function of the whole history before the call.
\<close>

record device =
  RETRY_TRIES :: int
  RETRY_DELAY :: real
  handle_adb_error :: "exn \<Rightarrow> bool"
  point2str :: "int \<Rightarrow> int \<Rightarrow> string"
  u2 :: "event list \<Rightarrow> call \<Rightarrow> exn option"

section \<open>The retry decorator\<close>

datatype flow = Break | Continue | Uncaught

text \<open>
  The \<^verbatim>\<open>except\<close> clauses of \<^verbatim>\<open>retry_wrapper\<close>, in source order: the calls the matching
  clause makes, and whether it leaves the loop (\<open>Break\<close>), falls through to
  \<^verbatim>\<open>self.sleep(RETRY_DELAY)\<close> (\<open>Continue\<close>), or no clause matches and the exception leaves
  \<^verbatim>\<open>retry_wrapper\<close> (\<open>Uncaught\<close>).
\<close>

definition except_clauses :: "device \<Rightarrow> exn \<Rightarrow> call list \<times> flow" where
  "except_clauses D e =
    (if isinstance e RequestHumanTakeover then ([], Break)
     else if isinstance e ConnectionResetError then ([Logger_error e, Adb_connect], Continue)
     else if isinstance e JSONDecodeError then ([Logger_error e, Install_uiautomator2], Continue)
     else if isinstance e AdbError then
       ([Handle_adb_error e], if \<not> handle_adb_error D e then Break else Continue)
     else if isinstance e RuntimeError then
       ([Handle_adb_error e], if \<not> handle_adb_error D e then Break else Continue)
     else if isinstance e AssertionError then
       ([Logger_exception e,
         Possible_reasons (''If you are using BlueStacks or LD player, '' @
                           ''please enable ADB in the settings of your emulator'')], Break)
     else if isinstance e Exception then ([Logger_exception e], Continue)
     else ([], Uncaught))"

text \<open>
  An exception that only the last clause, \<^verbatim>\<open>except Exception\<close>, catches: the
  ``unknown'' case of the source's comment.
\<close>

definition unknown_exception :: "exn \<Rightarrow> bool" where
  "unknown_exception e =
     (isinstance e Exception \<and> \<not> isinstance e RequestHumanTakeover
      \<and> \<not> isinstance e ConnectionResetError \<and> \<not> isinstance e JSONDecodeError
      \<and> \<not> isinstance e AdbError \<and> \<not> isinstance e RuntimeError
      \<and> \<not> isinstance e AssertionError)"

datatype 'a loop_exit = Returned 'a | Left_loop | Raised exn

text \<open>
  \<^verbatim>\<open>for _ in range(RETRY_TRIES)\<close>, with the number of iterations still to run as the
  recursion argument. The wrapped function sees the history (including the \<open>Invoke\<close> of
  the current attempt) and answers with the calls it made and its result.
\<close>

fun retry_loop ::
  "device \<Rightarrow> (event list \<Rightarrow> call list \<times> (exn + 'a)) \<Rightarrow> nat \<Rightarrow> event list
     \<Rightarrow> event list \<times> 'a loop_exit" where
  "retry_loop D func 0 h = (h, Left_loop)"
| "retry_loop D func (Suc n) h =
    (case func (h @ [Invoke]) of
       (cs, Inr v) \<Rightarrow> (h @ Invoke # map By_func cs, Returned v)
     | (cs, Inl e) \<Rightarrow>
        (case except_clauses D e of
           (ws, Break) \<Rightarrow> (h @ Invoke # map By_func cs @ map By_wrapper ws, Left_loop)
         | (ws, Uncaught) \<Rightarrow> (h @ Invoke # map By_func cs @ map By_wrapper ws, Raised e)
         | (ws, Continue) \<Rightarrow>
             retry_loop D func n
               (h @ Invoke # map By_func cs @ map By_wrapper ws @ [By_wrapper (Sleep (RETRY_DELAY D))])))"

text \<open>
  \<^verbatim>\<open>retry_wrapper\<close>: \<open>name\<close> is \<^verbatim>\<open>func.__name__\<close>. \<^verbatim>\<open>range\<close> of a negative bound is
  empty, hence \<open>nat\<close>.
\<close>

definition retry_wrapper ::
  "device \<Rightarrow> string \<Rightarrow> (event list \<Rightarrow> call list \<times> (exn + 'a)) \<Rightarrow> event list
     \<Rightarrow> event list \<times> (exn + 'a)" where
  "retry_wrapper D name func h =
    (case retry_loop D func (nat (RETRY_TRIES D)) h of
       (h', Returned v) \<Rightarrow> (h', Inr v)
     | (h', Raised e) \<Rightarrow> (h', Inl e)
     | (h', Left_loop) \<Rightarrow>
         (h' @ [By_wrapper (Logger_critical (''Retry '' @ name @ ''() failed''))],
          Inl raise_RequestHumanTakeover))"

text \<open>
  The history after the first \<open>j\<close> iterations of the loop, when each of them ended in
  \<^verbatim>\<open>self.sleep(RETRY_DELAY)\<close>: the wrapped function raised, and the matching clause let
  the loop go on. It is \<open>None\<close> when one of these iterations returned, left the loop or
  let the exception through.
\<close>

fun continued ::
  "device \<Rightarrow> (event list \<Rightarrow> call list \<times> (exn + 'a)) \<Rightarrow> nat \<Rightarrow> event list
     \<Rightarrow> event list option" where
  "continued D func 0 h = Some h"
| "continued D func (Suc j) h =
    (case func (h @ [Invoke]) of
       (cs, Inr v) \<Rightarrow> None
     | (cs, Inl e) \<Rightarrow>
        (case except_clauses D e of
           (ws, Continue) \<Rightarrow>
             continued D func j
               (h @ Invoke # map By_func cs @ map By_wrapper ws @ [By_wrapper (Sleep (RETRY_DELAY D))])
         | (ws, Break) \<Rightarrow> None
         | (ws, Uncaught) \<Rightarrow> None))"

section \<open>The wrapped device actions\<close>

text \<open>
  One iteration of the loop of \<^verbatim>\<open>_drag_along\<close> picks the touch call by the index of the
  waypoint: the \<^verbatim>\<open>if\<close> on \<^verbatim>\<open>index == 0\<close> comes first, the \<^verbatim>\<open>elif\<close> on
  \<^verbatim>\<open>index - length == -1\<close> second. The second component is the word of the log line.
\<close>

definition touch_call :: "nat \<Rightarrow> nat \<Rightarrow> int \<Rightarrow> int \<Rightarrow> call \<times> string" where
  "touch_call len index x y =
    (if index = 0 then (Touch_down x y, '' down'')
     else if int index - int len = - 1 then (Touch_up x y, '' up'')
     else (Touch_move x y, '' move''))"

text \<open>
  \<^verbatim>\<open>for index, data in enumerate(path)\<close>: the touch call may raise, and then the
  exception leaves the function with the calls made so far; otherwise the log line and
  \<^verbatim>\<open>self.sleep(second)\<close> follow and the loop goes on.
\<close>

fun drag_along_from ::
  "device \<Rightarrow> nat \<Rightarrow> nat \<Rightarrow> (int \<times> int \<times> real) list \<Rightarrow> event list
     \<Rightarrow> call list \<times> (exn + unit)" where
  "drag_along_from D len index [] h = ([], Inr ())"
| "drag_along_from D len index ((x, y, second) # path) h =
    (case touch_call len index x y of
       (c, word) \<Rightarrow>
         (case u2 D h c of
            Some e \<Rightarrow> ([c], Inl e)
          | None \<Rightarrow>
              (case drag_along_from D len (Suc index) path
                      (h @ map By_func [c, Logger_info (point2str D x y @ word), Sleep second]) of
                 (cs, r) \<Rightarrow> (c # Logger_info (point2str D x y @ word) # Sleep second # cs, r))))"

definition drag_along_func ::
  "device \<Rightarrow> (int \<times> int \<times> real) list \<Rightarrow> event list \<Rightarrow> call list \<times> (exn + unit)" where
  "drag_along_func D path h = drag_along_from D (length path) 0 path h"

text \<open>
  The traversal as the docstring of \<^verbatim>\<open>_drag_along\<close> and the specification describe
  it, to compare the loop with: touch down at the first waypoint, touch move at each
  waypoint between, touch up at the last, each step followed by its log line and by the
  sleep of the waypoint's own duration.
\<close>

definition touch_step ::
  "device \<Rightarrow> (int \<Rightarrow> int \<Rightarrow> call) \<Rightarrow> string \<Rightarrow> int \<times> int \<times> real \<Rightarrow> call list" where
  "touch_step D touch word w =
     (case w of (x, y, second) \<Rightarrow>
        [touch x y, Logger_info (point2str D x y @ word), Sleep second])"

definition spec_traversal :: "device \<Rightarrow> (int \<times> int \<times> real) list \<Rightarrow> call list" where
  "spec_traversal D path =
     touch_step D Touch_down '' down'' (hd path) @
     concat (map (touch_step D Touch_move '' move'') (butlast (tl path))) @
     touch_step D Touch_up '' up'' (last path)"

text \<open>The decorated method \<^verbatim>\<open>_drag_along\<close>.\<close>

definition drag_along ::
  "device \<Rightarrow> (int \<times> int \<times> real) list \<Rightarrow> event list \<Rightarrow> event list \<times> (exn + unit)" where
  "drag_along D path h = retry_wrapper D ''_drag_along'' (drag_along_func D path) h"

text \<open>
  The body of \<^verbatim>\<open>app_start_uiautomator2\<close>: its own \<^verbatim>\<open>try\<close> catches every
  \<^verbatim>\<open>u2.exceptions.BaseError\<close> and raises \<^verbatim>\<open>RequestHumanTakeover\<close>; any other
  exception of the device call leaves the function as it is.
\<close>

definition app_start_func :: "device \<Rightarrow> string \<Rightarrow> event list \<Rightarrow> call list \<times> (exn + unit)" where
  "app_start_func D package_name h =
    (case u2 D h (U2_app_start package_name) of
       None \<Rightarrow> ([U2_app_start package_name], Inr ())
     | Some e \<Rightarrow>
         if isinstance e BaseError then
           ([U2_app_start package_name, Logger_error e,
             Possible_reasons ([CHR 0x22] @ package_name @ [CHR 0x22] @
               '' not found, please check setting Emulator.PackageName'')],
            Inl raise_RequestHumanTakeover)
         else ([U2_app_start package_name], Inl e))"

text \<open>The decorated method \<^verbatim>\<open>app_start_uiautomator2\<close>.\<close>

definition app_start_uiautomator2 ::
  "device \<Rightarrow> string \<Rightarrow> event list \<Rightarrow> event list \<times> (exn + unit)" where
  "app_start_uiautomator2 D package_name h =
     retry_wrapper D ''app_start_uiautomator2'' (app_start_func D package_name) h"

text \<open>
  The exception named in the comment of \<^verbatim>\<open>app_start_uiautomator2\<close>,
  \<^verbatim>\<open>BaseError: package "com.bilibili.azurlane" not found\<close>, for a given package.
\<close>

definition package_not_found :: "string \<Rightarrow> exn" where
  "package_not_found package_name =
     \<lparr>classes = [BaseError, Exception, BaseException],
      args = [''package '' @ [CHR 0x22] @ package_name @ [CHR 0x22] @ '' not found'']\<rparr>"

section \<open>The drag gesture\<close>

type_synonym point = "real \<times> real"
type_synonym rect = "real \<times> real \<times> real \<times> real"

text \<open>
  \<^verbatim>\<open>random_rectangle_point\<close> and \<^verbatim>\<open>random_line_segments\<close> come from
  \<^verbatim>\<open>module/base/utils\<close> and draw from the random generator: they are parameters here,
  each taking the generator's state \<open>'g\<close> and returning the new one.
\<close>

record 'g utils =
  random_rectangle_point :: "rect \<Rightarrow> 'g \<Rightarrow> point \<times> 'g"
  random_line_segments :: "point \<Rightarrow> point \<Rightarrow> int \<Rightarrow> rect \<Rightarrow> 'g \<Rightarrow> point list \<times> 'g"

text \<open>Python's \<^verbatim>\<open>int(x)\<close> on a number: the fractional part is dropped, towards zero.\<close>

definition py_int :: "real \<Rightarrow> int" where
  "py_int x = (if 0 \<le> x then \<lfloor>x\<rfloor> else \<lceil>x\<rceil>)"

text \<open>Addition and subtraction of a numpy array of two coordinates and a pair.\<close>

fun vadd :: "point \<Rightarrow> point \<Rightarrow> point" where
  "vadd (a, b) (c, d) = (a + c, b + d)"

fun vsub :: "point \<Rightarrow> point \<Rightarrow> point" where
  "vsub (a, b) (c, d) = (a - c, b - d)"

text \<open>
  The path that \<^verbatim>\<open>drag_uiautomator2\<close> hands to \<^verbatim>\<open>_drag_along\<close>, statement by
  statement; \<open>raw_path\<close> is the list before the last comprehension applies
  \<^verbatim>\<open>int\<close> to the coordinates.
\<close>

definition raw_path ::
  "'g utils \<Rightarrow> point \<Rightarrow> point \<Rightarrow> int \<Rightarrow> point \<Rightarrow> rect \<Rightarrow> rect \<Rightarrow> real \<Rightarrow> real \<Rightarrow> 'g
     \<Rightarrow> (real \<times> real \<times> real) list \<times> 'g" where
  "raw_path U p1 p2 segments shake point_random shake_random swipe_duration shake_duration g0 =
    (case random_rectangle_point U point_random g0 of (r1, g1) \<Rightarrow>
     case random_rectangle_point U point_random g1 of (r2, g2) \<Rightarrow>
     case random_line_segments U (vsub p1 r1) (vsub p2 r2) segments point_random g2 of (line, g3) \<Rightarrow>
     case random_rectangle_point U shake_random g3 of (r3, g4) \<Rightarrow>
     case random_rectangle_point U shake_random g4 of (r4, g5) \<Rightarrow>
       (map (\<lambda>(x, y). (x, y, swipe_duration)) line @
        [case vadd (vadd (vsub p2 r2) shake) r3 of (x, y) \<Rightarrow> (x, y, shake_duration),
         case vsub (vsub (vsub p2 r2) shake) r4 of (x, y) \<Rightarrow> (x, y, shake_duration),
         case vsub p2 r2 of (x, y) \<Rightarrow> (x, y, shake_duration)],
        g5))"

definition drag_path ::
  "'g utils \<Rightarrow> point \<Rightarrow> point \<Rightarrow> int \<Rightarrow> point \<Rightarrow> rect \<Rightarrow> rect \<Rightarrow> real \<Rightarrow> real \<Rightarrow> 'g
     \<Rightarrow> (int \<times> int \<times> real) list \<times> 'g" where
  "drag_path U p1 p2 segments shake point_random shake_random swipe_duration shake_duration g0 =
    (case raw_path U p1 p2 segments shake point_random shake_random
            swipe_duration shake_duration g0 of
       (path, g) \<Rightarrow> (map (\<lambda>(x, y, d). (py_int x, py_int y, d)) path, g))"

definition drag_uiautomator2 ::
  "'g utils \<Rightarrow> device \<Rightarrow> point \<Rightarrow> point \<Rightarrow> int \<Rightarrow> point \<Rightarrow> rect \<Rightarrow> rect \<Rightarrow> real \<Rightarrow> real
     \<Rightarrow> 'g \<Rightarrow> event list \<Rightarrow> (event list \<times> (exn + unit)) \<times> 'g" where
  "drag_uiautomator2 U D p1 p2 segments shake point_random shake_random
       swipe_duration shake_duration g0 h =
    (case drag_path U p1 p2 segments shake point_random shake_random
            swipe_duration shake_duration g0 of
       (path, g) \<Rightarrow> (drag_along D path h, g))"

section \<open>Properties of the retry decorator\<close>

lemma count_Invoke_By_func [simp]: "count_list (map By_func cs) Invoke = 0"
  by (induction cs) auto

lemma count_Invoke_By_wrapper [simp]: "count_list (map By_wrapper ws) Invoke = 0"
  by (induction ws) auto

lemma except_clauses_no_critical:
  "except_clauses D e = (ws, fl) \<Longrightarrow> Logger_critical s \<notin> set ws"
  by (auto simp: except_clauses_def split: if_splits)

text \<open>One iteration, by the result of the wrapped function and the matching clause.\<close>

lemma retry_loop_return:
  "func (h @ [Invoke]) = (cs, Inr v) \<Longrightarrow>
   retry_loop D func (Suc n) h = (h @ Invoke # map By_func cs, Returned v)"
  by simp

lemma retry_loop_break:
  "func (h @ [Invoke]) = (cs, Inl e) \<Longrightarrow> except_clauses D e = (ws, Break) \<Longrightarrow>
   retry_loop D func (Suc n) h = (h @ Invoke # map By_func cs @ map By_wrapper ws, Left_loop)"
  by simp

lemma retry_loop_uncaught:
  "func (h @ [Invoke]) = (cs, Inl e) \<Longrightarrow> except_clauses D e = (ws, Uncaught) \<Longrightarrow>
   retry_loop D func (Suc n) h = (h @ Invoke # map By_func cs @ map By_wrapper ws, Raised e)"
  by simp

lemma retry_loop_continue:
  "func (h @ [Invoke]) = (cs, Inl e) \<Longrightarrow> except_clauses D e = (ws, Continue) \<Longrightarrow>
   retry_loop D func (Suc n) h =
     retry_loop D func n
       (h @ Invoke # map By_func cs @ map By_wrapper ws @ [By_wrapper (Sleep (RETRY_DELAY D))])"
  by simp

text \<open>The loop only appends to the history; what it appends has at most one \<open>Invoke\<close>
  per iteration and no critical log line of the wrapper.\<close>

lemma retry_loop_appends:
  "\<exists>mid. fst (retry_loop D func n h) = h @ mid \<and> count_list mid Invoke \<le> n
         \<and> (\<forall>s. By_wrapper (Logger_critical s) \<notin> set mid)"
proof (induction n arbitrary: h)
  case 0
  show ?case by simp
next
  case (Suc n)
  obtain cs r where f: "func (h @ [Invoke]) = (cs, r)" by (cases "func (h @ [Invoke])")
  show ?case
  proof (cases r)
    case (Inr v)
    have "fst (retry_loop D func (Suc n) h) = h @ (Invoke # map By_func cs)"
      using f Inr by simp
    moreover have "count_list (Invoke # map By_func cs) Invoke \<le> Suc n" by simp
    moreover have "\<forall>s. By_wrapper (Logger_critical s) \<notin> set (Invoke # map By_func cs)" by auto
    ultimately show ?thesis by blast
  next
    case (Inl e)
    obtain ws fl where ec: "except_clauses D e = (ws, fl)" by (cases "except_clauses D e")
    have nc: "\<forall>s. By_wrapper (Logger_critical s) \<notin> set (Invoke # map By_func cs @ map By_wrapper ws)"
      using except_clauses_no_critical [OF ec] by auto
    have c1: "count_list (Invoke # map By_func cs @ map By_wrapper ws) Invoke \<le> Suc n" by simp
    show ?thesis
    proof (cases fl)
      case Break
      have "fst (retry_loop D func (Suc n) h) = h @ (Invoke # map By_func cs @ map By_wrapper ws)"
        using f Inl ec Break by simp
      with nc c1 show ?thesis by blast
    next
      case Uncaught
      have "fst (retry_loop D func (Suc n) h) = h @ (Invoke # map By_func cs @ map By_wrapper ws)"
        using f Inl ec Uncaught by simp
      with nc c1 show ?thesis by blast
    next
      case Continue
      let ?step = "Invoke # map By_func cs @ map By_wrapper ws @ [By_wrapper (Sleep (RETRY_DELAY D))]"
      from Suc.IH [of "h @ ?step"] obtain mid where
        m: "fst (retry_loop D func n (h @ ?step)) = (h @ ?step) @ mid"
           "count_list mid Invoke \<le> n" "\<forall>s. By_wrapper (Logger_critical s) \<notin> set mid"
        by blast
      have "fst (retry_loop D func (Suc n) h) = h @ (?step @ mid)"
        using f Inl ec Continue m(1) by simp
      moreover have "count_list (?step @ mid) Invoke \<le> Suc n" using m(2) by simp
      moreover have "\<forall>s. By_wrapper (Logger_critical s) \<notin> set (?step @ mid)"
        using m(3) nc by auto
      ultimately show ?thesis by blast
    qed
  qed
qed





lemma except_takeover:
  "isinstance e RequestHumanTakeover \<Longrightarrow> except_clauses D e = ([], Break)"
  by (simp add: except_clauses_def)

text \<open>After iterations that all went on, the loop is where it would be had it started there.\<close>

lemma continued_retry_loop:
  "continued D func j h = Some h1 \<Longrightarrow> retry_loop D func (j + n) h = retry_loop D func n h1"
proof (induction j arbitrary: h)
  case 0
  then show ?case by simp
next
  case (Suc j)
  obtain cs r where f: "func (h @ [Invoke]) = (cs, r)" by (cases "func (h @ [Invoke])")
  show ?case
  proof (cases r)
    case (Inr v)
    with f Suc.prems show ?thesis by simp
  next
    case (Inl e)
    obtain ws fl where ec: "except_clauses D e = (ws, fl)" by (cases "except_clauses D e")
    show ?thesis
    proof (cases fl)
      case Continue
      with f Inl ec Suc.prems have
        "continued D func j
           (h @ Invoke # map By_func cs @ map By_wrapper ws @ [By_wrapper (Sleep (RETRY_DELAY D))])
         = Some h1" by simp
      from Suc.IH [OF this] f Inl ec Continue show ?thesis by simp
    qed (use f Inl ec Suc.prems in simp_all)
  qed
qed

lemma continued_extends:
  "continued D func j h = Some h1 \<Longrightarrow> \<exists>pre. h1 = h @ pre \<and> count_list pre Invoke = j"
proof (induction j arbitrary: h)
  case 0
  then show ?case by simp
next
  case (Suc j)
  obtain cs r where f: "func (h @ [Invoke]) = (cs, r)" by (cases "func (h @ [Invoke])")
  show ?case
  proof (cases r)
    case (Inr v)
    with f Suc.prems show ?thesis by simp
  next
    case (Inl e)
    obtain ws fl where ec: "except_clauses D e = (ws, fl)" by (cases "except_clauses D e")
    show ?thesis
    proof (cases fl)
      case Continue
      let ?step = "Invoke # map By_func cs @ map By_wrapper ws @ [By_wrapper (Sleep (RETRY_DELAY D))]"
      from f Inl ec Continue Suc.prems have "continued D func j (h @ ?step) = Some h1" by simp
      from Suc.IH [OF this] obtain pre where
        p: "h1 = (h @ ?step) @ pre" "count_list pre Invoke = j" by blast
      have "h1 = h @ (?step @ pre)" using p(1) by simp
      moreover have "count_list (?step @ pre) Invoke = Suc j" using p(2) by simp
      ultimately show ?thesis by blast
    qed (use f Inl ec Suc.prems in simp_all)
  qed
qed

text \<open>
  Claim C3. Let the first \<open>k - 1\<close> iterations each have ended in the sleep (the function
  raised and the matching clause let the loop go on), with \<open>h1\<close> the history after
  them, and let the function raise \<^verbatim>\<open>RequestHumanTakeover\<close> when invoked for the
  \<open>k\<close>-th time, \<open>0 < k \<le> RETRY_TRIES\<close>. Then the wrapper's whole history is \<open>h1\<close>,
  the \<open>k\<close>-th \<open>Invoke\<close>, the calls the function made in it and the critical log line,
  and \<^verbatim>\<open>RequestHumanTakeover\<close> is raised: \<open>k\<close> invocations in all, and after the last
  neither \<^verbatim>\<open>self.sleep(RETRY_DELAY)\<close> nor another invocation. The hypotheses speak
  only of the histories the loop reaches; a function that raises the signal at every
  call is the case \<open>k = 1\<close>.
\<close>

theorem retry_stops_on_takeover:
  assumes "0 < k" and "k \<le> nat (RETRY_TRIES D)"
    and "continued D func (k - 1) h = Some h1"
    and "func (h1 @ [Invoke]) = (cs, Inl e)"
    and "isinstance e RequestHumanTakeover"
  shows "retry_wrapper D name func h =
           (h1 @ Invoke # map By_func cs @
              [By_wrapper (Logger_critical (''Retry '' @ name @ ''() failed''))],
            Inl raise_RequestHumanTakeover)
         \<and> (\<exists>pre. h1 = h @ pre \<and> count_list pre Invoke + 1 = k)"
proof -
  define m where "m = nat (RETRY_TRIES D) - k"
  have n: "nat (RETRY_TRIES D) = (k - 1) + Suc m"
    using assms(1,2) unfolding m_def by arith
  have "retry_loop D func (nat (RETRY_TRIES D)) h = retry_loop D func (Suc m) h1"
    unfolding n using assms(3) by (rule continued_retry_loop)
  also have "\<dots> = (h1 @ Invoke # map By_func cs, Left_loop)"
    using assms(4) by (simp add: except_takeover [OF assms(5)])
  finally have "retry_wrapper D name func h =
           (h1 @ Invoke # map By_func cs @
              [By_wrapper (Logger_critical (''Retry '' @ name @ ''() failed''))],
            Inl raise_RequestHumanTakeover)"
    by (simp add: retry_wrapper_def)
  moreover from continued_extends [OF assms(3)] assms(1)
  have "\<exists>pre. h1 = h @ pre \<and> count_list pre Invoke + 1 = k" by auto
  ultimately show ?thesis by blast
qed

theorem retry_stops_on_takeover_witness:
  "retry_wrapper
     \<lparr>RETRY_TRIES = 3, RETRY_DELAY = 3, handle_adb_error = (\<lambda>e. False),
      point2str = (\<lambda>x y. []), u2 = (\<lambda>h c. None)\<rparr>
     ''click_uiautomator2''
     (\<lambda>h. ([], Inl \<lparr>classes = [RequestHumanTakeover, Exception, BaseException], args = []\<rparr>)
        :: call list \<times> (exn + unit)) []
   = ([Invoke, By_wrapper (Logger_critical ''Retry click_uiautomator2() failed'')],
      Inl raise_RequestHumanTakeover)
   \<and> retry_wrapper
     \<lparr>RETRY_TRIES = 3, RETRY_DELAY = 3, handle_adb_error = (\<lambda>e. False),
      point2str = (\<lambda>x y. []), u2 = (\<lambda>h c. None)\<rparr>
     ''click_uiautomator2''
     (\<lambda>h. if By_wrapper Adb_connect \<notin> set h
          then ([], Inl \<lparr>classes = [ConnectionResetError, Exception, BaseException], args = []\<rparr>)
          else ([Logger_info ''giving up''],
                Inl \<lparr>classes = [RequestHumanTakeover, Exception, BaseException],
                     args = [''stop'']\<rparr>)
        :: call list \<times> (exn + unit)) []
   = ([Invoke,
       By_wrapper (Logger_error
         \<lparr>classes = [ConnectionResetError, Exception, BaseException], args = []\<rparr>),
       By_wrapper Adb_connect,
       By_wrapper (Sleep 3),
       Invoke,
       By_func (Logger_info ''giving up''),
       By_wrapper (Logger_critical ''Retry click_uiautomator2() failed'')],
      Inl raise_RequestHumanTakeover)"
proof -
  let ?c = "\<lparr>classes = [ConnectionResetError, Exception, BaseException], args = []\<rparr>"
  let ?tz = "\<lparr>classes = [RequestHumanTakeover, Exception, BaseException], args = []\<rparr>"
  let ?t = "\<lparr>classes = [RequestHumanTakeover, Exception, BaseException], args = [''stop'']\<rparr>"
  let ?fz = "(\<lambda>h. ([], Inl ?tz)) :: event list \<Rightarrow> call list \<times> (exn + unit)"
  let ?f = "(\<lambda>h. if By_wrapper Adb_connect \<notin> set h then ([], Inl ?c)
                else ([Logger_info ''giving up''], Inl ?t))
              :: event list \<Rightarrow> call list \<times> (exn + unit)"
  let ?D = "\<lparr>RETRY_TRIES = 3, RETRY_DELAY = 3, handle_adb_error = (\<lambda>e. False),
      point2str = (\<lambda>x y. []), u2 = (\<lambda>h c. None)\<rparr>"
  let ?h1 = "[Invoke, By_wrapper (Logger_error ?c), By_wrapper Adb_connect, By_wrapper (Sleep 3)]"
  have t0: "isinstance ?tz RequestHumanTakeover" and t: "isinstance ?t RequestHumanTakeover"
    by (simp_all add: isinstance_def)
  have k1: "0 < (1::nat)" "1 \<le> nat (RETRY_TRIES ?D)" by simp_all
  have c0: "continued ?D ?fz (1 - 1) [] = Some []" by simp
  have a0: "?fz ([] @ [Invoke]) = ([], Inl ?tz)" by simp
  have first: "retry_wrapper ?D ''click_uiautomator2'' ?fz [] =
      ([Invoke, By_wrapper (Logger_critical ''Retry click_uiautomator2() failed'')],
       Inl raise_RequestHumanTakeover)"
    using retry_stops_on_takeover [OF k1 c0 a0 t0, of "''click_uiautomator2''", THEN conjunct1] by simp
  have k2: "0 < (2::nat)" "2 \<le> nat (RETRY_TRIES ?D)" by simp_all
  have "continued ?D ?f (Suc 0) [] = Some ?h1"
    by (simp add: except_clauses_def isinstance_def)
  then have c: "continued ?D ?f (2 - 1) [] = Some ?h1" by simp
  have a: "?f (?h1 @ [Invoke]) = ([Logger_info ''giving up''], Inl ?t)" by simp
  have second: "retry_wrapper ?D ''click_uiautomator2'' ?f [] =
      ([Invoke, By_wrapper (Logger_error ?c), By_wrapper Adb_connect, By_wrapper (Sleep 3),
        Invoke, By_func (Logger_info ''giving up''),
        By_wrapper (Logger_critical ''Retry click_uiautomator2() failed'')],
       Inl raise_RequestHumanTakeover)"
    using retry_stops_on_takeover [OF k2 c a t, of "''click_uiautomator2''", THEN conjunct1] by simp
  from first second show ?thesis by (rule conjI)
qed

text \<open>
  Claim C2. An attempt that raises \<open>e\<close>, not a \<^verbatim>\<open>RequestHumanTakeover\<close>, is handled by the
  first clause that matches, in this order: a \<^verbatim>\<open>ConnectionResetError\<close> is logged, followed
  by exactly one \<^verbatim>\<open>adb_connect\<close>, the sleep and the next iteration; otherwise a
  \<^verbatim>\<open>JSONDecodeError\<close> is logged, followed by exactly one \<^verbatim>\<open>install_uiautomator2\<close>, the
  sleep and the next iteration; otherwise an \<^verbatim>\<open>AdbError\<close> or a \<^verbatim>\<open>RuntimeError\<close> is
  given to \<^verbatim>\<open>handle_adb_error\<close>, whose answer decides between the sleep with the next
  iteration and leaving the loop; otherwise an \<^verbatim>\<open>AssertionError\<close> leaves the loop; and
  any other \<^verbatim>\<open>Exception\<close> is logged and followed by the sleep and the next iteration,
  with neither \<^verbatim>\<open>adb_connect\<close> nor \<^verbatim>\<open>install_uiautomator2\<close>.
\<close>

theorem retry_classifies_in_order:
  assumes "func (h @ [Invoke]) = (cs, Inl e)" and "\<not> isinstance e RequestHumanTakeover"
  shows
   "(isinstance e ConnectionResetError \<longrightarrow>
       retry_loop D func (Suc n) h =
         retry_loop D func n
           (h @ Invoke # map By_func cs @
              [By_wrapper (Logger_error e), By_wrapper Adb_connect,
               By_wrapper (Sleep (RETRY_DELAY D))]))
    \<and> (\<not> isinstance e ConnectionResetError \<and> isinstance e JSONDecodeError \<longrightarrow>
       retry_loop D func (Suc n) h =
         retry_loop D func n
           (h @ Invoke # map By_func cs @
              [By_wrapper (Logger_error e), By_wrapper Install_uiautomator2,
               By_wrapper (Sleep (RETRY_DELAY D))]))
    \<and> (\<not> isinstance e ConnectionResetError \<and> \<not> isinstance e JSONDecodeError
        \<and> (isinstance e AdbError \<or> isinstance e RuntimeError) \<longrightarrow>
       retry_loop D func (Suc n) h =
         (if handle_adb_error D e
          then retry_loop D func n
                 (h @ Invoke # map By_func cs @
                    [By_wrapper (Handle_adb_error e), By_wrapper (Sleep (RETRY_DELAY D))])
          else (h @ Invoke # map By_func cs @ [By_wrapper (Handle_adb_error e)], Left_loop)))
    \<and> (\<not> isinstance e ConnectionResetError \<and> \<not> isinstance e JSONDecodeError
        \<and> \<not> isinstance e AdbError \<and> \<not> isinstance e RuntimeError
        \<and> isinstance e AssertionError \<longrightarrow>
       retry_loop D func (Suc n) h =
         (h @ Invoke # map By_func cs @
            [By_wrapper (Logger_exception e),
             By_wrapper (Possible_reasons
               (''If you are using BlueStacks or LD player, '' @
                ''please enable ADB in the settings of your emulator''))],
          Left_loop))
    \<and> (unknown_exception e \<longrightarrow>
       retry_loop D func (Suc n) h =
         retry_loop D func n
           (h @ Invoke # map By_func cs @
              [By_wrapper (Logger_exception e), By_wrapper (Sleep (RETRY_DELAY D))]))"
  using assms by (simp add: except_clauses_def unknown_exception_def)

theorem retry_classifies_in_order_witness:
  "retry_loop
     \<lparr>RETRY_TRIES = 1, RETRY_DELAY = 3, handle_adb_error = (\<lambda>e. args e = [''closed'']),
      point2str = (\<lambda>x y. []), u2 = (\<lambda>h c. None)\<rparr>
     (\<lambda>h. ([], Inl \<lparr>classes = [JSONDecodeError, ConnectionResetError, Exception, BaseException],
                     args = []\<rparr>) :: call list \<times> (exn + unit))
     (Suc 0) []
   = ([Invoke,
       By_wrapper (Logger_error
         \<lparr>classes = [JSONDecodeError, ConnectionResetError, Exception, BaseException], args = []\<rparr>),
       By_wrapper Adb_connect, By_wrapper (Sleep 3)], Left_loop)
   \<and> retry_loop
     \<lparr>RETRY_TRIES = 1, RETRY_DELAY = 3, handle_adb_error = (\<lambda>e. args e = [''closed'']),
      point2str = (\<lambda>x y. []), u2 = (\<lambda>h c. None)\<rparr>
     (\<lambda>h. ([], Inl \<lparr>classes = [AdbError, JSONDecodeError, Exception, BaseException],
                     args = []\<rparr>) :: call list \<times> (exn + unit))
     (Suc 0) []
   = ([Invoke,
       By_wrapper (Logger_error
         \<lparr>classes = [AdbError, JSONDecodeError, Exception, BaseException], args = []\<rparr>),
       By_wrapper Install_uiautomator2, By_wrapper (Sleep 3)], Left_loop)
   \<and> retry_loop
     \<lparr>RETRY_TRIES = 1, RETRY_DELAY = 3, handle_adb_error = (\<lambda>e. args e = [''closed'']),
      point2str = (\<lambda>x y. []), u2 = (\<lambda>h c. None)\<rparr>
     (\<lambda>h. ([], Inl \<lparr>classes = [AdbError, Exception, BaseException],
                     args = [''closed'']\<rparr>) :: call list \<times> (exn + unit))
     (Suc 0) []
   = ([Invoke,
       By_wrapper (Handle_adb_error
         \<lparr>classes = [AdbError, Exception, BaseException], args = [''closed'']\<rparr>),
       By_wrapper (Sleep 3)], Left_loop)
   \<and> retry_loop
     \<lparr>RETRY_TRIES = 1, RETRY_DELAY = 3, handle_adb_error = (\<lambda>e. args e = [''closed'']),
      point2str = (\<lambda>x y. []), u2 = (\<lambda>h c. None)\<rparr>
     (\<lambda>h. ([], Inl \<lparr>classes = [RuntimeError, Exception, BaseException],
                     args = [''unknown'']\<rparr>) :: call list \<times> (exn + unit))
     (Suc 0) []
   = ([Invoke,
       By_wrapper (Handle_adb_error
         \<lparr>classes = [RuntimeError, Exception, BaseException], args = [''unknown'']\<rparr>)],
      Left_loop)
   \<and> retry_loop
     \<lparr>RETRY_TRIES = 1, RETRY_DELAY = 3, handle_adb_error = (\<lambda>e. args e = [''closed'']),
      point2str = (\<lambda>x y. []), u2 = (\<lambda>h c. None)\<rparr>
     (\<lambda>h. ([], Inl \<lparr>classes = [AssertionError, Exception, BaseException],
                     args = []\<rparr>) :: call list \<times> (exn + unit))
     (Suc 0) []
   = ([Invoke,
       By_wrapper (Logger_exception
         \<lparr>classes = [AssertionError, Exception, BaseException], args = []\<rparr>),
       By_wrapper (Possible_reasons
         (''If you are using BlueStacks or LD player, '' @
          ''please enable ADB in the settings of your emulator''))],
      Left_loop)
   \<and> retry_loop
     \<lparr>RETRY_TRIES = 1, RETRY_DELAY = 3, handle_adb_error = (\<lambda>e. args e = [''closed'']),
      point2str = (\<lambda>x y. []), u2 = (\<lambda>h c. None)\<rparr>
     (\<lambda>h. ([], Inl \<lparr>classes = [OtherClass ''KeyError'', Exception, BaseException],
                     args = []\<rparr>) :: call list \<times> (exn + unit))
     (Suc 0) []
   = ([Invoke,
       By_wrapper (Logger_exception
         \<lparr>classes = [OtherClass ''KeyError'', Exception, BaseException], args = []\<rparr>),
       By_wrapper (Sleep 3)], Left_loop)"
proof -
  let ?D = "\<lparr>RETRY_TRIES = 1, RETRY_DELAY = 3, handle_adb_error = (\<lambda>e. args e = [''closed'']),
      point2str = (\<lambda>x y. []), u2 = (\<lambda>h c. None)\<rparr>"
  let ?e1 = "\<lparr>classes = [JSONDecodeError, ConnectionResetError, Exception, BaseException], args = []\<rparr>"
  let ?e2 = "\<lparr>classes = [AdbError, JSONDecodeError, Exception, BaseException], args = []\<rparr>"
  let ?e3 = "\<lparr>classes = [AdbError, Exception, BaseException], args = [''closed'']\<rparr>"
  let ?e4 = "\<lparr>classes = [RuntimeError, Exception, BaseException], args = [''unknown'']\<rparr>"
  let ?e5 = "\<lparr>classes = [AssertionError, Exception, BaseException], args = []\<rparr>"
  let ?e6 = "\<lparr>classes = [OtherClass ''KeyError'', Exception, BaseException], args = []\<rparr>"
  note step = retry_classifies_in_order [where h = "[]" and cs = "[]" and D = ?D and n = 0]
  have r1: "retry_loop ?D (\<lambda>h. ([], Inl ?e1) :: call list \<times> (exn + unit)) (Suc 0) [] =
      ([Invoke, By_wrapper (Logger_error ?e1), By_wrapper Adb_connect, By_wrapper (Sleep 3)],
       Left_loop)"
    using step [of "\<lambda>h. ([], Inl ?e1)" ?e1]
    by (simp add: isinstance_def unknown_exception_def del: retry_loop.simps(2))
  have r2: "retry_loop ?D (\<lambda>h. ([], Inl ?e2) :: call list \<times> (exn + unit)) (Suc 0) [] =
      ([Invoke, By_wrapper (Logger_error ?e2), By_wrapper Install_uiautomator2,
        By_wrapper (Sleep 3)], Left_loop)"
    using step [of "\<lambda>h. ([], Inl ?e2)" ?e2]
    by (simp add: isinstance_def unknown_exception_def del: retry_loop.simps(2))
  have r3: "retry_loop ?D (\<lambda>h. ([], Inl ?e3) :: call list \<times> (exn + unit)) (Suc 0) [] =
      ([Invoke, By_wrapper (Handle_adb_error ?e3), By_wrapper (Sleep 3)], Left_loop)"
    using step [of "\<lambda>h. ([], Inl ?e3)" ?e3]
    by (simp add: isinstance_def unknown_exception_def del: retry_loop.simps(2))
  have r4: "retry_loop ?D (\<lambda>h. ([], Inl ?e4) :: call list \<times> (exn + unit)) (Suc 0) [] =
      ([Invoke, By_wrapper (Handle_adb_error ?e4)], Left_loop)"
    using step [of "\<lambda>h. ([], Inl ?e4)" ?e4]
    by (simp add: isinstance_def unknown_exception_def del: retry_loop.simps(2))
  have r5: "retry_loop ?D (\<lambda>h. ([], Inl ?e5) :: call list \<times> (exn + unit)) (Suc 0) [] =
      ([Invoke, By_wrapper (Logger_exception ?e5),
        By_wrapper (Possible_reasons
          (''If you are using BlueStacks or LD player, '' @
           ''please enable ADB in the settings of your emulator''))], Left_loop)"
    using step [of "\<lambda>h. ([], Inl ?e5)" ?e5]
    by (simp add: isinstance_def unknown_exception_def del: retry_loop.simps(2))
  have r6: "retry_loop ?D (\<lambda>h. ([], Inl ?e6) :: call list \<times> (exn + unit)) (Suc 0) [] =
      ([Invoke, By_wrapper (Logger_exception ?e6), By_wrapper (Sleep 3)], Left_loop)"
    using step [of "\<lambda>h. ([], Inl ?e6)" ?e6]
    by (simp add: isinstance_def unknown_exception_def del: retry_loop.simps(2))
  from r1 r2 r3 r4 r5 r6 show ?thesis by (simp del: retry_loop.simps(2))
qed

lemma except_clauses_uncaught:
  "except_clauses D e = (ws, Uncaught) \<Longrightarrow> \<not> isinstance e RequestHumanTakeover"
  by (auto simp: except_clauses_def split: if_splits)

lemma retry_loop_raised:
  "retry_loop D func n h = (h', Raised e) \<Longrightarrow> \<not> isinstance e RequestHumanTakeover"
proof (induction n arbitrary: h)
  case 0
  then show ?case by simp
next
  case (Suc n)
  obtain cs r where f: "func (h @ [Invoke]) = (cs, r)" by (cases "func (h @ [Invoke])")
  show ?case
  proof (cases r)
    case (Inr v)
    with f Suc.prems show ?thesis by simp
  next
    case (Inl e')
    obtain ws fl where ec: "except_clauses D e' = (ws, fl)" by (cases "except_clauses D e'")
    show ?thesis
    proof (cases fl)
      case Break
      with f Inl ec Suc.prems show ?thesis by simp
    next
      case Uncaught
      with f Inl ec Suc.prems have "e' = e" by simp
      with ec Uncaught show ?thesis by (simp add: except_clauses_uncaught)
    next
      case Continue
      with f Inl ec Suc.prems have
        "retry_loop D func n
           (h @ Invoke # map By_func cs @ map By_wrapper ws @ [By_wrapper (Sleep (RETRY_DELAY D))])
         = (h', Raised e)" by simp
      then show ?thesis by (rule Suc.IH)
    qed
  qed
qed

text \<open>
  Claim C4, as the code has it. Whenever \<^verbatim>\<open>retry_wrapper\<close> ends by raising
  \<^verbatim>\<open>RequestHumanTakeover\<close> (the loop ran out or a clause left it), the exception is the
  bare class raised without arguments, so it carries no label of the failed action; the
  name of the wrapped function appears in the critical log line
  \<^verbatim>\<open>Retry <name>() failed\<close>, which is the last event before the exception and the only
  critical line the wrapper logs during the call.
\<close>

theorem retry_escalation_signal:
  assumes "retry_wrapper D name func h = (h', Inl e)" and "isinstance e RequestHumanTakeover"
  shows "e = raise_RequestHumanTakeover \<and> args e = []
         \<and> (\<exists>mid. h' = h @ mid @ [By_wrapper (Logger_critical (''Retry '' @ name @ ''() failed''))]
                \<and> (\<forall>s. By_wrapper (Logger_critical s) \<notin> set mid))"
proof -
  obtain h1 r where l: "retry_loop D func (nat (RETRY_TRIES D)) h = (h1, r)"
    by (cases "retry_loop D func (nat (RETRY_TRIES D)) h")
  from retry_loop_appends [of D func "nat (RETRY_TRIES D)" h] l obtain mid where
    m: "h1 = h @ mid" "\<forall>s. By_wrapper (Logger_critical s) \<notin> set mid" by auto
  show ?thesis
  proof (cases r)
    case (Returned v)
    with l assms(1) show ?thesis by (simp add: retry_wrapper_def)
  next
    case (Raised e')
    with l assms(1) have "e' = e" by (simp add: retry_wrapper_def)
    with l Raised assms(2) retry_loop_raised [of D func "nat (RETRY_TRIES D)" h h1 e]
    show ?thesis by simp
  next
    case Left_loop
    with l assms(1) have
      "e = raise_RequestHumanTakeover"
      "h' = h1 @ [By_wrapper (Logger_critical (''Retry '' @ name @ ''() failed''))]"
      by (simp_all add: retry_wrapper_def)
    with m show ?thesis by (simp add: raise_RequestHumanTakeover_def)
  qed
qed

theorem retry_escalation_signal_witness:
  "retry_wrapper
     \<lparr>RETRY_TRIES = 5, RETRY_DELAY = 3, handle_adb_error = (\<lambda>e. False),
      point2str = (\<lambda>x y. []), u2 = (\<lambda>h c. None)\<rparr>
     ''click_uiautomator2''
     (\<lambda>h. ([], Inl \<lparr>classes = [AssertionError, Exception, BaseException], args = []\<rparr>)
        :: call list \<times> (exn + unit)) []
   = ([Invoke,
       By_wrapper (Logger_exception
         \<lparr>classes = [AssertionError, Exception, BaseException], args = []\<rparr>),
       By_wrapper (Possible_reasons
         (''If you are using BlueStacks or LD player, '' @
          ''please enable ADB in the settings of your emulator'')),
       By_wrapper (Logger_critical ''Retry click_uiautomator2() failed'')],
      Inl raise_RequestHumanTakeover)
   \<and> args raise_RequestHumanTakeover = []"
proof -
  let ?e = "\<lparr>classes = [AssertionError, Exception, BaseException], args = []\<rparr>"
  let ?f = "(\<lambda>h. ([], Inl ?e)) :: event list \<Rightarrow> call list \<times> (exn + unit)"
  let ?D = "\<lparr>RETRY_TRIES = 5, RETRY_DELAY = 3, handle_adb_error = (\<lambda>e. False),
      point2str = (\<lambda>x y. []), u2 = (\<lambda>h c. None)\<rparr>"
  have r: "retry_wrapper ?D ''click_uiautomator2'' ?f [] =
    ([Invoke, By_wrapper (Logger_exception ?e),
      By_wrapper (Possible_reasons
         (''If you are using BlueStacks or LD player, '' @
          ''please enable ADB in the settings of your emulator'')),
      By_wrapper (Logger_critical ''Retry click_uiautomator2() failed'')],
     Inl raise_RequestHumanTakeover)"
    by (simp add: retry_wrapper_def numeral_eq_Suc except_clauses_def isinstance_def)
  have t: "isinstance raise_RequestHumanTakeover RequestHumanTakeover"
    by (simp add: isinstance_def raise_RequestHumanTakeover_def)
  from retry_escalation_signal [OF r t] r show ?thesis by simp
qed

text \<open>
  Claim C4 as stated fails: with \<^verbatim>\<open>RETRY_TRIES = 1\<close> and a function named
  \<^verbatim>\<open>click_uiautomator2\<close> that raises an unknown exception, the exception raised by the
  wrapper has an empty argument tuple, and the name is not among its arguments.
\<close>

theorem retry_escalation_label_counterexample:
  "snd (retry_wrapper
     \<lparr>RETRY_TRIES = 1, RETRY_DELAY = 3, handle_adb_error = (\<lambda>e. False),
      point2str = (\<lambda>x y. []), u2 = (\<lambda>h c. None)\<rparr>
     ''click_uiautomator2''
     (\<lambda>h. ([], Inl \<lparr>classes = [OtherClass ''KeyError'', Exception, BaseException], args = []\<rparr>)
        :: call list \<times> (exn + unit)) [])
   = Inl \<lparr>classes = [RequestHumanTakeover, Exception, BaseException], args = []\<rparr>
   \<and> ''click_uiautomator2''
       \<notin> set (args \<lparr>classes = [RequestHumanTakeover, Exception, BaseException], args = []\<rparr>)"
  by (simp add: retry_wrapper_def except_clauses_def isinstance_def raise_RequestHumanTakeover_def)

section \<open>Properties of app start\<close>

lemma app_start_func_base_error:
  "u2 D h (U2_app_start package_name) = Some e \<Longrightarrow> isinstance e BaseError \<Longrightarrow>
   app_start_func D package_name h =
     ([U2_app_start package_name, Logger_error e,
       Possible_reasons ([CHR 0x22] @ package_name @ [CHR 0x22] @
         '' not found, please check setting Emulator.PackageName'')],
      Inl raise_RequestHumanTakeover)"
  by (simp add: app_start_func_def)

lemma app_start_func_other_error:
  "u2 D h (U2_app_start package_name) = Some e \<Longrightarrow> \<not> isinstance e BaseError \<Longrightarrow>
   app_start_func D package_name h = ([U2_app_start package_name], Inl e)"
  by (simp add: app_start_func_def)

lemma isinstance_raise_RequestHumanTakeover:
  "isinstance raise_RequestHumanTakeover RequestHumanTakeover"
  by (simp add: isinstance_def raise_RequestHumanTakeover_def)

text \<open>
  Claim C5. For every package name and every positive retry bound: if the first call of
  \<^verbatim>\<open>u2.app_start\<close> raises the package-not-found error, \<^verbatim>\<open>app_start_uiautomator2\<close>
  logs the error, gives the hint to check \<^verbatim>\<open>Emulator.PackageName\<close>, logs the critical
  line and raises \<^verbatim>\<open>RequestHumanTakeover\<close>. The history shows one invocation and one
  call of \<^verbatim>\<open>u2.app_start\<close>, no sleep and no second attempt.
\<close>

theorem app_start_package_not_found:
  assumes "0 < RETRY_TRIES D"
    and "u2 D (h @ [Invoke]) (U2_app_start package_name) = Some (package_not_found package_name)"
  shows "app_start_uiautomator2 D package_name h =
    (h @ [Invoke,
          By_func (U2_app_start package_name),
          By_func (Logger_error (package_not_found package_name)),
          By_func (Possible_reasons ([CHR 0x22] @ package_name @ [CHR 0x22] @
            '' not found, please check setting Emulator.PackageName'')),
          By_wrapper (Logger_critical ''Retry app_start_uiautomator2() failed'')],
     Inl raise_RequestHumanTakeover)"
proof -
  from assms(1) obtain m where n: "nat (RETRY_TRIES D) = Suc m"
    by (cases "nat (RETRY_TRIES D)") simp_all
  have b: "isinstance (package_not_found package_name) BaseError"
    by (simp add: isinstance_def package_not_found_def)
  show ?thesis
    unfolding app_start_uiautomator2_def retry_wrapper_def n
    by (simp add: app_start_func_base_error [OF assms(2) b]
          except_takeover [OF isinstance_raise_RequestHumanTakeover])
qed

theorem app_start_package_not_found_witness:
  "app_start_uiautomator2
     \<lparr>RETRY_TRIES = 5, RETRY_DELAY = 3, handle_adb_error = (\<lambda>e. True),
      point2str = (\<lambda>x y. []),
      u2 = (\<lambda>h c. Some (package_not_found ''com.example.missing''))\<rparr>
     ''com.example.missing'' []
   = ([Invoke,
       By_func (U2_app_start ''com.example.missing''),
       By_func (Logger_error (package_not_found ''com.example.missing'')),
       By_func (Possible_reasons
         ([CHR 0x22] @ ''com.example.missing'' @ [CHR 0x22] @
            '' not found, please check setting Emulator.PackageName'')),
       By_wrapper (Logger_critical ''Retry app_start_uiautomator2() failed'')],
      Inl raise_RequestHumanTakeover)"
  using app_start_package_not_found
    [of "\<lparr>RETRY_TRIES = 5, RETRY_DELAY = 3, handle_adb_error = (\<lambda>e. True),
      point2str = (\<lambda>x y. []),
      u2 = (\<lambda>h c. Some (package_not_found ''com.example.missing''))\<rparr>" "[]"
      "''com.example.missing''"]
  by simp

text \<open>
  Claim C10. Whatever \<^verbatim>\<open>BaseError\<close> the device raises, with any arguments, and at
  whichever attempt \<open>k\<close> it does so (the \<open>k - 1\<close> iterations before having ended in the
  sleep, with \<open>h1\<close> the history after them): the wrapper's whole history is \<open>h1\<close>, the
  \<open>k\<close>-th \<open>Invoke\<close> with its single call of \<^verbatim>\<open>u2.app_start\<close>, the error log, the hint
  and the critical line, and \<^verbatim>\<open>RequestHumanTakeover\<close> is raised. No invocation follows
  the error. The hypotheses speak only of the histories the loop reaches; a device that
  answers every call with a \<^verbatim>\<open>BaseError\<close> is the case \<open>k = 1\<close>.
\<close>

theorem app_start_base_error_never_retried:
  assumes "0 < k" and "k \<le> nat (RETRY_TRIES D)"
    and "continued D (app_start_func D package_name) (k - 1) h = Some h1"
    and "u2 D (h1 @ [Invoke]) (U2_app_start package_name) = Some e"
    and "isinstance e BaseError"
  shows "app_start_uiautomator2 D package_name h =
            (h1 @
               [Invoke,
                By_func (U2_app_start package_name),
                By_func (Logger_error e),
                By_func (Possible_reasons ([CHR 0x22] @ package_name @ [CHR 0x22] @
                  '' not found, please check setting Emulator.PackageName'')),
                By_wrapper (Logger_critical ''Retry app_start_uiautomator2() failed'')],
             Inl raise_RequestHumanTakeover)
          \<and> (\<exists>pre. h1 = h @ pre \<and> count_list pre Invoke + 1 = k)"
proof -
  let ?f = "app_start_func D package_name"
  define m where "m = nat (RETRY_TRIES D) - k"
  have n: "nat (RETRY_TRIES D) = (k - 1) + Suc m"
    using assms(1,2) unfolding m_def by arith
  have "retry_loop D ?f (nat (RETRY_TRIES D)) h = retry_loop D ?f (Suc m) h1"
    unfolding n using assms(3) by (rule continued_retry_loop)
  also have "\<dots> =
      (h1 @ Invoke # map By_func
         [U2_app_start package_name, Logger_error e,
          Possible_reasons ([CHR 0x22] @ package_name @ [CHR 0x22] @
            '' not found, please check setting Emulator.PackageName'')], Left_loop)"
    by (simp add: app_start_func_base_error [OF assms(4,5)]
          except_takeover [OF isinstance_raise_RequestHumanTakeover])
  finally have "app_start_uiautomator2 D package_name h =
            (h1 @
               [Invoke,
                By_func (U2_app_start package_name),
                By_func (Logger_error e),
                By_func (Possible_reasons ([CHR 0x22] @ package_name @ [CHR 0x22] @
                  '' not found, please check setting Emulator.PackageName'')),
                By_wrapper (Logger_critical ''Retry app_start_uiautomator2() failed'')],
             Inl raise_RequestHumanTakeover)"
    by (simp add: app_start_uiautomator2_def retry_wrapper_def)
  moreover from continued_extends [OF assms(3)] assms(1)
  have "\<exists>pre. h1 = h @ pre \<and> count_list pre Invoke + 1 = k" by auto
  ultimately show ?thesis by blast
qed

theorem app_start_base_error_never_retried_witness:
  "app_start_uiautomator2
     \<lparr>RETRY_TRIES = 3, RETRY_DELAY = 3, handle_adb_error = (\<lambda>e. True),
      point2str = (\<lambda>x y. []),
      u2 = (\<lambda>h c. Some \<lparr>classes = [BaseError, Exception, BaseException],
                           args = [''gateway error'']\<rparr>)\<rparr>
     ''com.bilibili.azurlane'' []
   = ([Invoke,
       By_func (U2_app_start ''com.bilibili.azurlane''),
       By_func (Logger_error
         \<lparr>classes = [BaseError, Exception, BaseException], args = [''gateway error'']\<rparr>),
       By_func (Possible_reasons ([CHR 0x22] @ ''com.bilibili.azurlane'' @ [CHR 0x22] @
         '' not found, please check setting Emulator.PackageName'')),
       By_wrapper (Logger_critical ''Retry app_start_uiautomator2() failed'')],
      Inl raise_RequestHumanTakeover)
   \<and> app_start_uiautomator2
     \<lparr>RETRY_TRIES = 3, RETRY_DELAY = 3, handle_adb_error = (\<lambda>e. True),
      point2str = (\<lambda>x y. []),
      u2 = (\<lambda>h c. if By_wrapper Adb_connect \<notin> set h
                    then Some \<lparr>classes = [ConnectionResetError, Exception, BaseException],
                               args = []\<rparr>
                    else Some \<lparr>classes = [BaseError, Exception, BaseException],
                               args = [''gateway error'']\<rparr>)\<rparr>
     ''com.bilibili.azurlane'' []
   = ([Invoke,
       By_func (U2_app_start ''com.bilibili.azurlane''),
       By_wrapper (Logger_error
         \<lparr>classes = [ConnectionResetError, Exception, BaseException], args = []\<rparr>),
       By_wrapper Adb_connect,
       By_wrapper (Sleep 3),
       Invoke,
       By_func (U2_app_start ''com.bilibili.azurlane''),
       By_func (Logger_error
         \<lparr>classes = [BaseError, Exception, BaseException], args = [''gateway error'']\<rparr>),
       By_func (Possible_reasons ([CHR 0x22] @ ''com.bilibili.azurlane'' @ [CHR 0x22] @
         '' not found, please check setting Emulator.PackageName'')),
       By_wrapper (Logger_critical ''Retry app_start_uiautomator2() failed'')],
      Inl raise_RequestHumanTakeover)"
proof -
  let ?c = "\<lparr>classes = [ConnectionResetError, Exception, BaseException], args = []\<rparr>"
  let ?b = "\<lparr>classes = [BaseError, Exception, BaseException], args = [''gateway error'']\<rparr>"
  let ?A = "\<lparr>RETRY_TRIES = 3, RETRY_DELAY = 3, handle_adb_error = (\<lambda>e. True),
      point2str = (\<lambda>x y. []), u2 = (\<lambda>h c. Some ?b)\<rparr>"
  let ?D = "\<lparr>RETRY_TRIES = 3, RETRY_DELAY = 3, handle_adb_error = (\<lambda>e. True),
      point2str = (\<lambda>x y. []),
      u2 = (\<lambda>h c. if By_wrapper Adb_connect \<notin> set h then Some ?c else Some ?b)\<rparr>"
  let ?p = "''com.bilibili.azurlane''"
  let ?h1 = "[Invoke, By_func (U2_app_start ?p),
       By_wrapper (Logger_error ?c), By_wrapper Adb_connect, By_wrapper (Sleep 3)]"
  have b: "isinstance ?b BaseError" by (simp add: isinstance_def)
  have k1: "0 < (1::nat)" "1 \<le> nat (RETRY_TRIES ?A)" by simp_all
  have cA: "continued ?A (app_start_func ?A ?p) (1 - 1) [] = Some []" by simp
  have uA: "u2 ?A ([] @ [Invoke]) (U2_app_start ?p) = Some ?b" by simp
  have first: "app_start_uiautomator2 ?A ?p [] =
      ([Invoke, By_func (U2_app_start ?p), By_func (Logger_error ?b),
        By_func (Possible_reasons ([CHR 0x22] @ ?p @ [CHR 0x22] @
          '' not found, please check setting Emulator.PackageName'')),
        By_wrapper (Logger_critical ''Retry app_start_uiautomator2() failed'')],
       Inl raise_RequestHumanTakeover)"
    using app_start_base_error_never_retried [OF k1 cA uA b, THEN conjunct1] by simp
  have k2: "0 < (2::nat)" "2 \<le> nat (RETRY_TRIES ?D)" by simp_all
  have "continued ?D (app_start_func ?D ?p) (Suc 0) [] = Some ?h1"
    by (simp add: app_start_func_def except_clauses_def isinstance_def)
  then have cD: "continued ?D (app_start_func ?D ?p) (2 - 1) [] = Some ?h1" by simp
  have uD: "u2 ?D (?h1 @ [Invoke]) (U2_app_start ?p) = Some ?b" by simp
  have second: "app_start_uiautomator2 ?D ?p [] =
      ([Invoke, By_func (U2_app_start ?p),
        By_wrapper (Logger_error ?c), By_wrapper Adb_connect, By_wrapper (Sleep 3),
        Invoke, By_func (U2_app_start ?p), By_func (Logger_error ?b),
        By_func (Possible_reasons ([CHR 0x22] @ ?p @ [CHR 0x22] @
          '' not found, please check setting Emulator.PackageName'')),
        By_wrapper (Logger_critical ''Retry app_start_uiautomator2() failed'')],
       Inl raise_RequestHumanTakeover)"
    using app_start_base_error_never_retried [OF k2 cD uD b, THEN conjunct1] by simp
  from first second show ?thesis by (rule conjI)
qed

section \<open>Properties of the drag\<close>

lemma touch_call_first: "touch_call len 0 x y = (Touch_down x y, '' down'')"
  by (simp add: touch_call_def)

lemma touch_call_last:
  "0 < index \<Longrightarrow> len = Suc index \<Longrightarrow> touch_call len index x y = (Touch_up x y, '' up'')"
  by (simp add: touch_call_def)

lemma touch_call_between:
  "0 < index \<Longrightarrow> Suc index < len \<Longrightarrow> touch_call len index x y = (Touch_move x y, '' move'')"
  by (simp add: touch_call_def)

lemma touch_step_simp:
  "touch_step D touch word (x, y, second) =
     [touch x y, Logger_info (point2str D x y @ word), Sleep second]"
  by (simp add: touch_step_def)

text \<open>From a waypoint after the first on: moves, then the touch up at the last.\<close>

lemma drag_along_from_rest:
  assumes "0 < index" and "len = index + length mid + 1"
  shows "prefix (fst (drag_along_from D len index (mid @ [q]) h))
           (concat (map (touch_step D Touch_move '' move'') mid) @ touch_step D Touch_up '' up'' q)
         \<and> (snd (drag_along_from D len index (mid @ [q]) h) = Inr () \<longrightarrow>
              fst (drag_along_from D len index (mid @ [q]) h) =
                concat (map (touch_step D Touch_move '' move'') mid) @ touch_step D Touch_up '' up'' q)"
  using assms
proof (induction mid arbitrary: index h)
  case Nil
  obtain x y s where q: "q = (x, y, s)" by (cases q)
  have tc: "touch_call len index x y = (Touch_up x y, '' up'')"
    using Nil by (simp add: touch_call_last)
  show ?case
    by (cases "u2 D h (Touch_up x y)") (simp_all add: q tc touch_step_simp)
next
  case (Cons w mid)
  obtain x y s where w: "w = (x, y, s)" by (cases w)
  have tc: "touch_call len index x y = (Touch_move x y, '' move'')"
    using Cons.prems by (simp add: touch_call_between)
  show ?case
  proof (cases "u2 D h (Touch_move x y)")
    case (Some e)
    then show ?thesis by (simp add: w tc touch_step_simp)
  next
    case None
    let ?h = "h @ map By_func [Touch_move x y, Logger_info (point2str D x y @ '' move''), Sleep s]"
    have ih: "prefix (fst (drag_along_from D len (Suc index) (mid @ [q]) ?h))
           (concat (map (touch_step D Touch_move '' move'') mid) @ touch_step D Touch_up '' up'' q)
         \<and> (snd (drag_along_from D len (Suc index) (mid @ [q]) ?h) = Inr () \<longrightarrow>
              fst (drag_along_from D len (Suc index) (mid @ [q]) ?h) =
                concat (map (touch_step D Touch_move '' move'') mid) @ touch_step D Touch_up '' up'' q)"
      using Cons.prems by (intro Cons.IH) simp_all
    obtain cs r where d: "drag_along_from D len (Suc index) (mid @ [q]) ?h = (cs, r)"
      by (cases "drag_along_from D len (Suc index) (mid @ [q]) ?h")
    have "drag_along_from D len index ((w # mid) @ [q]) h =
            (Touch_move x y # Logger_info (point2str D x y @ '' move'') # Sleep s # cs, r)"
      using None d by (simp add: w tc)
    with ih d show ?thesis by (simp add: w touch_step_simp)
  qed
qed

lemma drag_along_func_whole:
  "prefix (fst (drag_along_func D (p # mid @ [q]) h)) (spec_traversal D (p # mid @ [q]))
   \<and> (snd (drag_along_func D (p # mid @ [q]) h) = Inr () \<longrightarrow>
        fst (drag_along_func D (p # mid @ [q]) h) = spec_traversal D (p # mid @ [q]))
   \<and> (\<exists>rest. fst (drag_along_func D (p # mid @ [q]) h) = Touch_down (fst p) (fst (snd p)) # rest)"
proof -
  obtain x y s where p: "p = (x, y, s)" by (cases p)
  have st: "spec_traversal D ((x, y, s) # mid @ [q]) =
      [Touch_down x y, Logger_info (point2str D x y @ '' down''), Sleep s] @
      concat (map (touch_step D Touch_move '' move'') mid) @ touch_step D Touch_up '' up'' q"
    by (simp add: spec_traversal_def touch_step_simp butlast_append)
  show ?thesis
  proof (cases "u2 D h (Touch_down x y)")
    case (Some e)
    then show ?thesis by (simp add: drag_along_func_def p touch_call_first st)
  next
    case None
    let ?h = "h @ map By_func [Touch_down x y, Logger_info (point2str D x y @ '' down''), Sleep s]"
    let ?len = "length (p # mid @ [q])"
    have r: "prefix (fst (drag_along_from D ?len (Suc 0) (mid @ [q]) ?h))
           (concat (map (touch_step D Touch_move '' move'') mid) @ touch_step D Touch_up '' up'' q)
         \<and> (snd (drag_along_from D ?len (Suc 0) (mid @ [q]) ?h) = Inr () \<longrightarrow>
              fst (drag_along_from D ?len (Suc 0) (mid @ [q]) ?h) =
                concat (map (touch_step D Touch_move '' move'') mid) @ touch_step D Touch_up '' up'' q)"
      by (intro drag_along_from_rest) simp_all
    obtain cs r where d: "drag_along_from D ?len (Suc 0) (mid @ [q]) ?h = (cs, r)"
      by (cases "drag_along_from D ?len (Suc 0) (mid @ [q]) ?h")
    have "drag_along_func D (p # mid @ [q]) h =
            (Touch_down x y # Logger_info (point2str D x y @ '' down'') # Sleep s # cs, r)"
      using None d by (simp add: drag_along_func_def p touch_call_first)
    with r d show ?thesis by (simp add: st p)
  qed
qed

lemma take_three_add: "take (3 + n) (a # b # c # xs) = a # b # c # take n xs"
  by (simp add: numeral_3_eq_3)

lemma nth_three_add: "(a # b # c # xs) ! (3 + n) = xs ! n"
  by (simp add: numeral_3_eq_3)

text \<open>
  The histories at which a traversal \<open>a # b # c # R\<close> (one step, then the rest) puts its
  touch calls to the device: the first at \<open>g\<close>, the others after the step.
\<close>

lemma answers_first:
  assumes "\<forall>j<Suc n. u2 D (g @ map By_func (take (3 * j) (a # b # c # R)))
                          ((a # b # c # R) ! (3 * j)) = None"
  shows "u2 D g a = None"
  using assms by (drule_tac x = 0 in spec) simp

lemma answers_later:
  assumes "\<forall>j<Suc n. u2 D (g @ map By_func (take (3 * j) (a # b # c # R)))
                          ((a # b # c # R) ! (3 * j)) = None"
  shows "\<forall>j<n. u2 D ((g @ map By_func [a, b, c]) @ map By_func (take (3 * j) R))
                    (R ! (3 * j)) = None"
proof (intro allI impI)
  fix j assume "j < n"
  then have "Suc j < Suc n" by simp
  with assms have "u2 D (g @ map By_func (take (3 * Suc j) (a # b # c # R)))
                          ((a # b # c # R) ! (3 * Suc j)) = None" by blast
  then show "u2 D ((g @ map By_func [a, b, c]) @ map By_func (take (3 * j) R)) (R ! (3 * j)) = None"
    by (simp add: take_three_add nth_three_add)
qed

text \<open>From a waypoint after the first on, on a device that answers every touch call.\<close>

lemma drag_along_from_rest_returns:
  assumes "0 < index" and "len = index + length mid + 1"
    and "R = concat (map (touch_step D Touch_move '' move'') mid) @ touch_step D Touch_up '' up'' q"
    and "\<forall>j<length mid + 1. u2 D (g @ map By_func (take (3 * j) R)) (R ! (3 * j)) = None"
  shows "drag_along_from D len index (mid @ [q]) g = (R, Inr ())"
  using assms
proof (induction mid arbitrary: index g R)
  case Nil
  obtain x y s where q: "q = (x, y, s)" by (cases q)
  have tc: "touch_call len index x y = (Touch_up x y, '' up'')"
    using Nil by (simp add: touch_call_last)
  have R: "R = [Touch_up x y, Logger_info (point2str D x y @ '' up''), Sleep s]"
    using Nil.prems(3) by (simp add: q touch_step_simp)
  from Nil.prems(4) have "u2 D g (Touch_up x y) = None"
    unfolding R by (drule_tac x = 0 in spec) simp
  then show ?case by (simp add: q tc R)
next
  case (Cons w mid)
  obtain x y s where w: "w = (x, y, s)" by (cases w)
  define R' where
    "R' = concat (map (touch_step D Touch_move '' move'') mid) @ touch_step D Touch_up '' up'' q"
  let ?a = "Touch_move x y" and ?b = "Logger_info (point2str D x y @ '' move'')" and ?c = "Sleep s"
  have R: "R = ?a # ?b # ?c # R'"
    using Cons.prems(3) by (simp add: w touch_step_simp R'_def)
  have tc: "touch_call len index x y = (Touch_move x y, '' move'')"
    using Cons.prems by (simp add: touch_call_between)
  have all: "\<forall>j<Suc (length mid + 1).
      u2 D (g @ map By_func (take (3 * j) (?a # ?b # ?c # R'))) ((?a # ?b # ?c # R') ! (3 * j)) = None"
    using Cons.prems(4) unfolding R by simp
  have first: "u2 D g ?a = None" using all by (rule answers_first)
  have later: "\<forall>j<length mid + 1.
      u2 D ((g @ map By_func [?a, ?b, ?c]) @ map By_func (take (3 * j) R')) (R' ! (3 * j)) = None"
    using all by (rule answers_later)
  have "drag_along_from D len (Suc index) (mid @ [q]) (g @ map By_func [?a, ?b, ?c]) = (R', Inr ())"
    using Cons.prems(1,2) R'_def later by (intro Cons.IH) simp_all
  then show ?case using first by (simp add: w tc R)
qed

lemma spec_traversal_split:
  "spec_traversal D ((x, y, s) # mid @ [q]) =
     Touch_down x y # Logger_info (point2str D x y @ '' down'') # Sleep s #
     (concat (map (touch_step D Touch_move '' move'') mid) @ touch_step D Touch_up '' up'' q)"
  by (simp add: spec_traversal_def touch_step_simp butlast_append)

lemma drag_along_func_returns:
  assumes "2 \<le> length path"
    and "\<forall>j<length path.
           u2 D (g @ map By_func (take (3 * j) (spec_traversal D path)))
             (spec_traversal D path ! (3 * j)) = None"
  shows "drag_along_func D path g = (spec_traversal D path, Inr ())"
proof -
  from assms(1) obtain p rest where a: "path = p # rest" by (cases path) auto
  with assms(1) have "rest \<noteq> []" by auto
  with a have path: "path = p # butlast rest @ [last rest]" by simp
  obtain x y s where p: "p = (x, y, s)" by (cases p)
  define mid where "mid = butlast rest"
  define q where "q = last rest"
  define R where
    "R = concat (map (touch_step D Touch_move '' move'') mid) @ touch_step D Touch_up '' up'' q"
  let ?a = "Touch_down x y" and ?b = "Logger_info (point2str D x y @ '' down'')" and ?c = "Sleep s"
  have pq: "path = (x, y, s) # mid @ [q]" using path p mid_def q_def by simp
  have T: "spec_traversal D path = ?a # ?b # ?c # R"
    unfolding pq R_def by (rule spec_traversal_split)
  have all: "\<forall>j<Suc (length mid + 1).
      u2 D (g @ map By_func (take (3 * j) (?a # ?b # ?c # R))) ((?a # ?b # ?c # R) ! (3 * j)) = None"
    using assms(2) unfolding T by (simp add: pq)
  have first: "u2 D g ?a = None" using all by (rule answers_first)
  have later: "\<forall>j<length mid + 1.
      u2 D ((g @ map By_func [?a, ?b, ?c]) @ map By_func (take (3 * j) R)) (R ! (3 * j)) = None"
    using all by (rule answers_later)
  define n where "n = length path"
  have n: "n = Suc 0 + length mid + 1" unfolding n_def by (simp add: pq)
  have "drag_along_from D n (Suc 0) (mid @ [q]) (g @ map By_func [?a, ?b, ?c]) = (R, Inr ())"
    using n R_def later by (intro drag_along_from_rest_returns) simp_all
  then have "drag_along_from D n 0 ((x, y, s) # mid @ [q]) g = (?a # ?b # ?c # R, Inr ())"
    using first by (simp add: touch_call_first)
  then have "drag_along_from D (length path) 0 path g = (?a # ?b # ?c # R, Inr ())"
    unfolding n_def pq [symmetric] .
  then show ?thesis unfolding T drag_along_func_def .
qed

lemma raises_later:
  assumes "u2 D (g @ map By_func (take (3 * Suc i) (a # b # c # R)))
             ((a # b # c # R) ! (3 * Suc i)) = Some e"
  shows "u2 D ((g @ map By_func [a, b, c]) @ map By_func (take (3 * i) R)) (R ! (3 * i)) = Some e"
  using assms by (simp add: take_three_add nth_three_add)

lemma take_Suc_three_Suc:
  "take (Suc (3 * Suc i)) (a # b # c # xs) = a # b # c # take (Suc (3 * i)) xs"
proof -
  have "Suc (3 * Suc i) = Suc (Suc (Suc (Suc (3 * i))))" by simp
  then show ?thesis by (simp only: take_Suc_Cons)
qed

text \<open>From a waypoint after the first on, when the touch call of step \<open>i\<close> is the first to raise.\<close>

lemma drag_along_from_rest_raises:
  assumes "0 < index" and "len = index + length mid + 1"
    and "R = concat (map (touch_step D Touch_move '' move'') mid) @ touch_step D Touch_up '' up'' q"
    and "i < length mid + 1"
    and "\<forall>j<i. u2 D (g @ map By_func (take (3 * j) R)) (R ! (3 * j)) = None"
    and "u2 D (g @ map By_func (take (3 * i) R)) (R ! (3 * i)) = Some e"
  shows "drag_along_from D len index (mid @ [q]) g = (take (Suc (3 * i)) R, Inl e)"
  using assms
proof (induction mid arbitrary: index g R i)
  case Nil
  obtain x y s where q: "q = (x, y, s)" by (cases q)
  have tc: "touch_call len index x y = (Touch_up x y, '' up'')"
    using Nil by (simp add: touch_call_last)
  have R: "R = [Touch_up x y, Logger_info (point2str D x y @ '' up''), Sleep s]"
    using Nil.prems(3) by (simp add: q touch_step_simp)
  from Nil.prems(4) have i: "i = 0" by simp
  from Nil.prems(6) have "u2 D g (Touch_up x y) = Some e"
    unfolding R i by simp
  then show ?case by (simp add: q tc R i)
next
  case (Cons w mid)
  obtain x y s where w: "w = (x, y, s)" by (cases w)
  define R' where
    "R' = concat (map (touch_step D Touch_move '' move'') mid) @ touch_step D Touch_up '' up'' q"
  let ?a = "Touch_move x y" and ?b = "Logger_info (point2str D x y @ '' move'')" and ?c = "Sleep s"
  have R: "R = ?a # ?b # ?c # R'"
    using Cons.prems(3) by (simp add: w touch_step_simp R'_def)
  have tc: "touch_call len index x y = (Touch_move x y, '' move'')"
    using Cons.prems by (simp add: touch_call_between)
  show ?case
  proof (cases i)
    case 0
    from Cons.prems(6) have "u2 D g ?a = Some e" unfolding R 0 by simp
    then show ?thesis by (simp add: w tc R 0)
  next
    case (Suc i')
    have all: "\<forall>j<Suc i'.
        u2 D (g @ map By_func (take (3 * j) (?a # ?b # ?c # R'))) ((?a # ?b # ?c # R') ! (3 * j)) = None"
      using Cons.prems(5) unfolding R Suc by simp
    have first: "u2 D g ?a = None" using all by (rule answers_first)
    have later: "\<forall>j<i'.
        u2 D ((g @ map By_func [?a, ?b, ?c]) @ map By_func (take (3 * j) R')) (R' ! (3 * j)) = None"
      using all by (rule answers_later)
    have fails: "u2 D ((g @ map By_func [?a, ?b, ?c]) @ map By_func (take (3 * i') R'))
                   (R' ! (3 * i')) = Some e"
      using Cons.prems(6) unfolding R Suc by (rule raises_later)
    have "i' < length mid + 1" using Cons.prems(4) Suc by simp
    with Cons.prems(1,2) R'_def later fails
    have "drag_along_from D len (Suc index) (mid @ [q]) (g @ map By_func [?a, ?b, ?c]) =
            (take (Suc (3 * i')) R', Inl e)"
      by (intro Cons.IH) simp_all
    then have "drag_along_from D len index ((w # mid) @ [q]) g =
            (?a # ?b # ?c # take (Suc (3 * i')) R', Inl e)"
      using first by (simp add: w tc)
    then show ?thesis unfolding R Suc take_Suc_three_Suc .
  qed
qed

lemma drag_along_func_raises:
  assumes "2 \<le> length path" and "i < length path"
    and "\<forall>j<i. u2 D (g @ map By_func (take (3 * j) (spec_traversal D path)))
                  (spec_traversal D path ! (3 * j)) = None"
    and "u2 D (g @ map By_func (take (3 * i) (spec_traversal D path)))
           (spec_traversal D path ! (3 * i)) = Some e"
  shows "drag_along_func D path g = (take (Suc (3 * i)) (spec_traversal D path), Inl e)"
proof -
  from assms(1) obtain p rest where a: "path = p # rest" by (cases path) auto
  with assms(1) have "rest \<noteq> []" by auto
  with a have path: "path = p # butlast rest @ [last rest]" by simp
  obtain x y s where p: "p = (x, y, s)" by (cases p)
  define mid where "mid = butlast rest"
  define q where "q = last rest"
  define R where
    "R = concat (map (touch_step D Touch_move '' move'') mid) @ touch_step D Touch_up '' up'' q"
  let ?a = "Touch_down x y" and ?b = "Logger_info (point2str D x y @ '' down'')" and ?c = "Sleep s"
  have pq: "path = (x, y, s) # mid @ [q]" using path p mid_def q_def by simp
  have T: "spec_traversal D path = ?a # ?b # ?c # R"
    unfolding pq R_def by (rule spec_traversal_split)
  define n where "n = length path"
  have n: "n = Suc 0 + length mid + 1" unfolding n_def by (simp add: pq)
  have "drag_along_from D n 0 ((x, y, s) # mid @ [q]) g = (take (Suc (3 * i)) (?a # ?b # ?c # R), Inl e)"
  proof (cases i)
    case 0
    from assms(4) have "u2 D g ?a = Some e" unfolding T 0 by simp
    then show ?thesis by (simp add: touch_call_first 0)
  next
    case (Suc i')
    have all: "\<forall>j<Suc i'.
        u2 D (g @ map By_func (take (3 * j) (?a # ?b # ?c # R))) ((?a # ?b # ?c # R) ! (3 * j)) = None"
      using assms(3) unfolding T Suc by simp
    have first: "u2 D g ?a = None" using all by (rule answers_first)
    have later: "\<forall>j<i'.
        u2 D ((g @ map By_func [?a, ?b, ?c]) @ map By_func (take (3 * j) R)) (R ! (3 * j)) = None"
      using all by (rule answers_later)
    have fails: "u2 D ((g @ map By_func [?a, ?b, ?c]) @ map By_func (take (3 * i') R))
                   (R ! (3 * i')) = Some e"
      using assms(4) unfolding T Suc by (rule raises_later)
    have "i' < length mid + 1" using assms(2) Suc by (simp add: pq)
    with n R_def later fails
    have "drag_along_from D n (Suc 0) (mid @ [q]) (g @ map By_func [?a, ?b, ?c]) =
            (take (Suc (3 * i')) R, Inl e)"
      by (intro drag_along_from_rest_raises) simp_all
    then have "drag_along_from D n 0 ((x, y, s) # mid @ [q]) g =
            (?a # ?b # ?c # take (Suc (3 * i')) R, Inl e)"
      using first by (simp add: touch_call_first)
    then show ?thesis unfolding Suc take_Suc_three_Suc .
  qed
  then have "drag_along_from D (length path) 0 path g =
      (take (Suc (3 * i)) (?a # ?b # ?c # R), Inl e)"
    unfolding n_def pq [symmetric] .
  then show ?thesis unfolding T drag_along_func_def .
qed

lemma two_or_more:
  assumes "2 \<le> length (path :: 'a list)"
  obtains p mid q where "path = p # mid @ [q]"
proof -
  from assms obtain p rest where a: "path = p # rest"
    by (cases path) auto
  with assms have "rest \<noteq> []" by auto
  with a have "path = p # butlast rest @ [last rest]" by simp
  then show ?thesis by (rule that)
qed

lemma drag_along_func_prefix:
  assumes "2 \<le> length path"
  shows "prefix (fst (drag_along_func D path g)) (spec_traversal D path)"
proof -
  from assms obtain p mid q where path: "path = p # mid @ [q]" by (rule two_or_more)
  from drag_along_func_whole [of D p mid q g] show ?thesis unfolding path by blast
qed

text \<open>The decorated method, when an attempt goes through after \<open>j\<close> that did not.\<close>

lemma drag_along_after_continued:
  assumes "2 \<le> length path" and "j < nat (RETRY_TRIES D)"
    and "continued D (drag_along_func D path) j h = Some h1"
    and "\<forall>i<length path.
           u2 D (h1 @ Invoke # map By_func (take (3 * i) (spec_traversal D path)))
             (spec_traversal D path ! (3 * i)) = None"
  shows "drag_along D path h = (h1 @ Invoke # map By_func (spec_traversal D path), Inr ())"
proof -
  let ?f = "drag_along_func D path"
  define m where "m = nat (RETRY_TRIES D) - Suc j"
  have n: "nat (RETRY_TRIES D) = j + Suc m"
    using assms(2) unfolding m_def by arith
  have "\<forall>i<length path.
           u2 D ((h1 @ [Invoke]) @ map By_func (take (3 * i) (spec_traversal D path)))
             (spec_traversal D path ! (3 * i)) = None"
    using assms(4) by simp
  with assms(1) have f: "?f (h1 @ [Invoke]) = (spec_traversal D path, Inr ())"
    by (rule drag_along_func_returns)
  have "retry_loop D ?f (nat (RETRY_TRIES D)) h = retry_loop D ?f (Suc m) h1"
    unfolding n using assms(3) by (rule continued_retry_loop)
  also have "\<dots> = (h1 @ Invoke # map By_func (spec_traversal D path), Returned ())"
    using f by (rule retry_loop_return)
  finally show ?thesis by (simp add: drag_along_def retry_wrapper_def)
qed

lemma drag_along_retry_once:
  assumes "2 \<le> length path" and "1 < RETRY_TRIES D" and "i < length path"
    and "\<forall>j<i. u2 D (h @ Invoke # map By_func (take (3 * j) (spec_traversal D path)))
                  (spec_traversal D path ! (3 * j)) = None"
    and "u2 D (h @ Invoke # map By_func (take (3 * i) (spec_traversal D path)))
           (spec_traversal D path ! (3 * i)) = Some e"
    and "except_clauses D e = (ws, Continue)"
    and "\<forall>j<length path.
           u2 D (h @ Invoke # map By_func (take (Suc (3 * i)) (spec_traversal D path)) @
                   map By_wrapper ws @ By_wrapper (Sleep (RETRY_DELAY D)) #
                   Invoke # map By_func (take (3 * j) (spec_traversal D path)))
             (spec_traversal D path ! (3 * j)) = None"
  shows "drag_along D path h =
           (h @ Invoke # map By_func (take (Suc (3 * i)) (spec_traversal D path)) @
              map By_wrapper ws @ By_wrapper (Sleep (RETRY_DELAY D)) #
              Invoke # map By_func (spec_traversal D path), Inr ())"
proof -
  let ?f = "drag_along_func D path"
  let ?T = "spec_traversal D path"
  let ?h1 = "h @ Invoke # map By_func (take (Suc (3 * i)) ?T) @
               map By_wrapper ws @ [By_wrapper (Sleep (RETRY_DELAY D))]"
  have a: "\<forall>j<i. u2 D ((h @ [Invoke]) @ map By_func (take (3 * j) ?T)) (?T ! (3 * j)) = None"
    using assms(4) by simp
  have b: "u2 D ((h @ [Invoke]) @ map By_func (take (3 * i) ?T)) (?T ! (3 * i)) = Some e"
    using assms(5) by simp
  have f: "?f (h @ [Invoke]) = (take (Suc (3 * i)) ?T, Inl e)"
    using assms(1,3) a b by (rule drag_along_func_raises)
  have c: "continued D ?f (Suc 0) h = Some ?h1"
    by (simp add: f assms(6))
  have j: "Suc 0 < nat (RETRY_TRIES D)" using assms(2) by simp
  have d: "\<forall>j<length path. u2 D (?h1 @ Invoke # map By_func (take (3 * j) ?T)) (?T ! (3 * j)) = None"
    using assms(7) by simp
  from drag_along_after_continued [OF assms(1) j c d] show ?thesis by simp
qed

text \<open>
  Claim C7. For a path of at least two waypoints, with \<open>T\<close> the traversal (touch down at
  the first waypoint, touch move at each waypoint between, touch up at the last, each
  followed by its log line and the sleep of that waypoint's duration), \<open>g\<close> the history
  at which \<^verbatim>\<open>_drag_along\<close> is invoked and \<open>h\<close> the one at which the decorated method is
  called:
  \<^item> if the device answers each touch call of the traversal, at the history the
    traversal has reached by then, the invocation makes exactly the calls \<open>T\<close> and
    returns;
  \<^item> if the touch call of waypoint \<open>i\<close> is the first to raise, the invocation has made
    the calls of the waypoints before it and that touch call, and raises the exception;
  \<^item> in every case the calls of an invocation are an initial part of \<open>T\<close>;
  \<^item> the decorated method: after \<open>n < RETRY_TRIES\<close> iterations that ended in the sleep, an
    attempt on which the device answers every call makes the whole of \<open>T\<close> and the
    method returns;
  \<^item> in particular, when the first attempt fails at waypoint \<open>i\<close> with an exception
    after which the loop goes on and the device answers on the second attempt, the
    history is the cut-off first attempt, the recovery calls, the sleep, and then the
    whole traversal from the first waypoint.
\<close>

theorem drag_along_traversal:
  assumes "2 \<le> length path"
  shows "(let T = spec_traversal D path in
     ((\<forall>j<length path. u2 D (g @ map By_func (take (3 * j) T)) (T ! (3 * j)) = None) \<longrightarrow>
        drag_along_func D path g = (T, Inr ()))
   \<and> (\<forall>i e. i < length path
          \<and> (\<forall>j<i. u2 D (g @ map By_func (take (3 * j) T)) (T ! (3 * j)) = None)
          \<and> u2 D (g @ map By_func (take (3 * i) T)) (T ! (3 * i)) = Some e \<longrightarrow>
        drag_along_func D path g = (take (Suc (3 * i)) T, Inl e))
   \<and> prefix (fst (drag_along_func D path g)) T
   \<and> (\<forall>n h1. n < nat (RETRY_TRIES D)
          \<and> continued D (drag_along_func D path) n h = Some h1
          \<and> (\<forall>j<length path.
                u2 D (h1 @ Invoke # map By_func (take (3 * j) T)) (T ! (3 * j)) = None) \<longrightarrow>
        drag_along D path h = (h1 @ Invoke # map By_func T, Inr ()))
   \<and> (\<forall>i e ws. 1 < RETRY_TRIES D \<and> i < length path
          \<and> (\<forall>j<i. u2 D (h @ Invoke # map By_func (take (3 * j) T)) (T ! (3 * j)) = None)
          \<and> u2 D (h @ Invoke # map By_func (take (3 * i) T)) (T ! (3 * i)) = Some e
          \<and> except_clauses D e = (ws, Continue)
          \<and> (\<forall>j<length path.
                u2 D (h @ Invoke # map By_func (take (Suc (3 * i)) T) @
                        map By_wrapper ws @ By_wrapper (Sleep (RETRY_DELAY D)) #
                        Invoke # map By_func (take (3 * j) T))
                  (T ! (3 * j)) = None) \<longrightarrow>
        drag_along D path h =
          (h @ Invoke # map By_func (take (Suc (3 * i)) T) @
             map By_wrapper ws @ By_wrapper (Sleep (RETRY_DELAY D)) #
             Invoke # map By_func T, Inr ())))"
  unfolding Let_def
proof (intro conjI allI impI)
  assume "\<forall>j<length path. u2 D (g @ map By_func (take (3 * j) (spec_traversal D path)))
            (spec_traversal D path ! (3 * j)) = None"
  with assms show "drag_along_func D path g = (spec_traversal D path, Inr ())"
    by (rule drag_along_func_returns)
next
  fix i e
  assume "i < length path
          \<and> (\<forall>j<i. u2 D (g @ map By_func (take (3 * j) (spec_traversal D path)))
                      (spec_traversal D path ! (3 * j)) = None)
          \<and> u2 D (g @ map By_func (take (3 * i) (spec_traversal D path)))
               (spec_traversal D path ! (3 * i)) = Some e"
  then show "drag_along_func D path g = (take (Suc (3 * i)) (spec_traversal D path), Inl e)"
    using assms by (intro drag_along_func_raises) blast+
next
  show "prefix (fst (drag_along_func D path g)) (spec_traversal D path)"
    using assms by (rule drag_along_func_prefix)
next
  fix n h1
  assume "n < nat (RETRY_TRIES D)
          \<and> continued D (drag_along_func D path) n h = Some h1
          \<and> (\<forall>j<length path.
                u2 D (h1 @ Invoke # map By_func (take (3 * j) (spec_traversal D path)))
                  (spec_traversal D path ! (3 * j)) = None)"
  then show "drag_along D path h = (h1 @ Invoke # map By_func (spec_traversal D path), Inr ())"
    using assms by (intro drag_along_after_continued) blast+
next
  fix i e ws
  assume "1 < RETRY_TRIES D \<and> i < length path
          \<and> (\<forall>j<i. u2 D (h @ Invoke # map By_func (take (3 * j) (spec_traversal D path)))
                      (spec_traversal D path ! (3 * j)) = None)
          \<and> u2 D (h @ Invoke # map By_func (take (3 * i) (spec_traversal D path)))
               (spec_traversal D path ! (3 * i)) = Some e
          \<and> except_clauses D e = (ws, Continue)
          \<and> (\<forall>j<length path.
                u2 D (h @ Invoke # map By_func (take (Suc (3 * i)) (spec_traversal D path)) @
                        map By_wrapper ws @ By_wrapper (Sleep (RETRY_DELAY D)) #
                        Invoke # map By_func (take (3 * j) (spec_traversal D path)))
                  (spec_traversal D path ! (3 * j)) = None)"
  then show "drag_along D path h =
          (h @ Invoke # map By_func (take (Suc (3 * i)) (spec_traversal D path)) @
             map By_wrapper ws @ By_wrapper (Sleep (RETRY_DELAY D)) #
             Invoke # map By_func (spec_traversal D path), Inr ())"
    using assms by (intro drag_along_retry_once) blast+
qed

theorem drag_along_traversal_witness:
  "drag_along
     \<lparr>RETRY_TRIES = 3, RETRY_DELAY = 3, handle_adb_error = (\<lambda>e. False),
      point2str = (\<lambda>x y. ''p''), u2 = (\<lambda>h c. None)\<rparr>
     [(1, 2, 1 / 5), (5, 6, 1 / 10), (7, 8, 3 / 10)] []
   = ([Invoke,
       By_func (Touch_down 1 2), By_func (Logger_info ''p down''), By_func (Sleep (1 / 5)),
       By_func (Touch_move 5 6), By_func (Logger_info ''p move''), By_func (Sleep (1 / 10)),
       By_func (Touch_up 7 8), By_func (Logger_info ''p up''), By_func (Sleep (3 / 10))],
      Inr ())
   \<and> drag_along
     \<lparr>RETRY_TRIES = 3, RETRY_DELAY = 3, handle_adb_error = (\<lambda>e. False),
      point2str = (\<lambda>x y. ''p''),
      u2 = (\<lambda>h c. if c = Touch_move 5 6 \<and> count_list h Invoke < 2
                    then Some \<lparr>classes = [ConnectionResetError, Exception, BaseException],
                               args = []\<rparr>
                    else None)\<rparr>
     [(1, 2, 1 / 5), (5, 6, 1 / 10), (7, 8, 3 / 10)] []
   = ([Invoke,
       By_func (Touch_down 1 2), By_func (Logger_info ''p down''), By_func (Sleep (1 / 5)),
       By_func (Touch_move 5 6),
       By_wrapper (Logger_error
         \<lparr>classes = [ConnectionResetError, Exception, BaseException], args = []\<rparr>),
       By_wrapper Adb_connect,
       By_wrapper (Sleep 3),
       Invoke,
       By_func (Touch_down 1 2), By_func (Logger_info ''p down''), By_func (Sleep (1 / 5)),
       By_func (Touch_move 5 6), By_func (Logger_info ''p move''), By_func (Sleep (1 / 10)),
       By_func (Touch_up 7 8), By_func (Logger_info ''p up''), By_func (Sleep (3 / 10))],
      Inr ())"
proof -
  let ?c = "\<lparr>classes = [ConnectionResetError, Exception, BaseException], args = []\<rparr>"
  let ?A = "\<lparr>RETRY_TRIES = 3, RETRY_DELAY = 3, handle_adb_error = (\<lambda>e. False),
      point2str = (\<lambda>x y. ''p''), u2 = (\<lambda>h c. None)\<rparr>"
  let ?D = "\<lparr>RETRY_TRIES = 3, RETRY_DELAY = 3, handle_adb_error = (\<lambda>e. False),
      point2str = (\<lambda>x y. ''p''),
      u2 = (\<lambda>h c. if c = Touch_move 5 6 \<and> count_list h Invoke < 2 then Some ?c else None)\<rparr>"
  let ?P = "[(1, 2, 1 / 5), (5, 6, 1 / 10), (7, 8, 3 / 10)] :: (int \<times> int \<times> real) list"
  let ?T = "[Touch_down 1 2, Logger_info ''p down'', Sleep (1 / 5),
             Touch_move 5 6, Logger_info ''p move'', Sleep (1 / 10),
             Touch_up 7 8, Logger_info ''p up'', Sleep (3 / 10)]"
  have len: "2 \<le> length ?P" by simp
  have TA: "spec_traversal ?A ?P = ?T" by (simp add: spec_traversal_def touch_step_simp)
  have TD: "spec_traversal ?D ?P = ?T" by (simp add: spec_traversal_def touch_step_simp)
  note A = drag_along_traversal [OF len, of ?A "[]" "[]", unfolded Let_def TA,
      THEN conjunct2, THEN conjunct2, THEN conjunct2, THEN conjunct1, rule_format,
      where n = 0 and ?h1.0 = "[]"]
  have first: "drag_along ?A ?P [] = ([] @ Invoke # map By_func ?T, Inr ())"
    by (rule A) simp
  note E = drag_along_traversal [OF len, of ?D "[]" "[]", unfolded Let_def TD,
      THEN conjunct2, THEN conjunct2, THEN conjunct2, THEN conjunct2, rule_format,
      where i = 1 and e = ?c and ws = "[Logger_error ?c, Adb_connect]"]
  have ec: "except_clauses ?D ?c = ([Logger_error ?c, Adb_connect], Continue)"
    by (simp add: except_clauses_def isinstance_def)
  have second: "drag_along ?D ?P [] =
      ([] @ Invoke # map By_func (take (Suc (3 * 1)) ?T) @
         map By_wrapper [Logger_error ?c, Adb_connect] @ By_wrapper (Sleep (RETRY_DELAY ?D)) #
         Invoke # map By_func ?T, Inr ())"
    by (rule E) (simp add: ec)
  from first second show ?thesis by simp
qed

lemma retry_loop_func_calls:
  assumes "\<forall>h' c. c \<in> set (fst (func h')) \<longrightarrow> Q c"
  shows "\<exists>mid. fst (retry_loop D func n h) = h @ mid \<and> (\<forall>c. By_func c \<in> set mid \<longrightarrow> Q c)"
proof (induction n arbitrary: h)
  case 0
  show ?case by simp
next
  case (Suc n)
  obtain cs r where f: "func (h @ [Invoke]) = (cs, r)" by (cases "func (h @ [Invoke])")
  have q: "\<forall>c. By_func c \<in> set (Invoke # map By_func cs) \<longrightarrow> Q c"
    using assms f by (metis fst_conv imageE list.set_map set_ConsD event.distinct(3) event.inject(2))
  show ?case
  proof (cases r)
    case (Inr v)
    have "fst (retry_loop D func (Suc n) h) = h @ (Invoke # map By_func cs)"
      using f Inr by simp
    with q show ?thesis by blast
  next
    case (Inl e)
    obtain ws fl where ec: "except_clauses D e = (ws, fl)" by (cases "except_clauses D e")
    have q': "\<forall>c. By_func c \<in> set (Invoke # map By_func cs @ map By_wrapper ws) \<longrightarrow> Q c"
      using q by auto
    show ?thesis
    proof (cases fl)
      case Break
      have "fst (retry_loop D func (Suc n) h) = h @ (Invoke # map By_func cs @ map By_wrapper ws)"
        using f Inl ec Break by simp
      with q' show ?thesis by blast
    next
      case Uncaught
      have "fst (retry_loop D func (Suc n) h) = h @ (Invoke # map By_func cs @ map By_wrapper ws)"
        using f Inl ec Uncaught by simp
      with q' show ?thesis by blast
    next
      case Continue
      let ?step = "Invoke # map By_func cs @ map By_wrapper ws @ [By_wrapper (Sleep (RETRY_DELAY D))]"
      from Suc.IH [of "h @ ?step"] obtain mid where
        m: "fst (retry_loop D func n (h @ ?step)) = (h @ ?step) @ mid"
           "\<forall>c. By_func c \<in> set mid \<longrightarrow> Q c"
        by blast
      have "fst (retry_loop D func (Suc n) h) = h @ (?step @ mid)"
        using f Inl ec Continue m(1) by simp
      moreover have "\<forall>c. By_func c \<in> set (?step @ mid) \<longrightarrow> Q c"
        using m(2) q by auto
      ultimately show ?thesis by blast
    qed
  qed
qed

lemma retry_wrapper_func_calls:
  assumes "\<forall>h' c. c \<in> set (fst (func h')) \<longrightarrow> Q c"
  shows "\<exists>mid. fst (retry_wrapper D name func h) = h @ mid \<and> (\<forall>c. By_func c \<in> set mid \<longrightarrow> Q c)"
proof -
  obtain h1 r where l: "retry_loop D func (nat (RETRY_TRIES D)) h = (h1, r)"
    by (cases "retry_loop D func (nat (RETRY_TRIES D)) h")
  from retry_loop_func_calls [OF assms, of D "nat (RETRY_TRIES D)" h] l obtain mid where
    m: "h1 = h @ mid" "\<forall>c. By_func c \<in> set mid \<longrightarrow> Q c" by auto
  show ?thesis
  proof (cases r)
    case Left_loop
    have "fst (retry_wrapper D name func h) =
            h @ (mid @ [By_wrapper (Logger_critical (''Retry '' @ name @ ''() failed''))])"
      using l m(1) Left_loop by (simp add: retry_wrapper_def)
    moreover have "\<forall>c. By_func c \<in> set (mid @ [By_wrapper (Logger_critical (''Retry '' @ name @ ''() failed''))]) \<longrightarrow> Q c"
      using m(2) by auto
    ultimately show ?thesis by blast
  qed (use l m in \<open>auto simp: retry_wrapper_def\<close>)
qed

lemma drag_along_func_single:
  "drag_along_func D [(x, y, second)] h =
     (case u2 D h (Touch_down x y) of
        None \<Rightarrow> ([Touch_down x y, Logger_info (point2str D x y @ '' down''), Sleep second], Inr ())
      | Some e \<Rightarrow> ([Touch_down x y], Inl e))"
  by (simp add: drag_along_func_def touch_call_first split: option.split)

text \<open>
  Claim C9. On a path of one waypoint the index is 0 and \<^verbatim>\<open>index - length\<close> is \<open>-1\<close> at
  once; the \<^verbatim>\<open>if\<close> on the index comes first, so the only touch call of an invocation is
  the touch down at that waypoint (followed by its log line and sleep when it returns).
  No invocation issues a touch up, and so neither does the decorated method, however
  often it retries: the pairing of touch down with touch up needs two waypoints.
\<close>

theorem drag_along_single_waypoint:
  "drag_along_func D [(x, y, second)] h =
     (case u2 D h (Touch_down x y) of
        None \<Rightarrow> ([Touch_down x y, Logger_info (point2str D x y @ '' down''), Sleep second], Inr ())
      | Some e \<Rightarrow> ([Touch_down x y], Inl e))
   \<and> (\<forall>a b. Touch_up a b \<notin> set (fst (drag_along_func D [(x, y, second)] h)))
   \<and> (\<exists>mid. fst (drag_along D [(x, y, second)] h) = h @ mid
          \<and> (\<forall>a b. By_func (Touch_up a b) \<notin> set mid))"
proof -
  have no_up: "\<forall>h' c. c \<in> set (fst (drag_along_func D [(x, y, second)] h')) \<longrightarrow>
                  (\<forall>a b. c \<noteq> Touch_up a b)"
    by (auto simp: drag_along_func_single split: option.splits)
  from retry_wrapper_func_calls [OF no_up, of D "''_drag_along''" h]
  have "\<exists>mid. fst (drag_along D [(x, y, second)] h) = h @ mid
          \<and> (\<forall>a b. By_func (Touch_up a b) \<notin> set mid)"
    unfolding drag_along_def by blast
  moreover have "\<forall>a b. Touch_up a b \<notin> set (fst (drag_along_func D [(x, y, second)] h))"
    using no_up by blast
  ultimately show ?thesis using drag_along_func_single by blast
qed

lemma py_int_of_int [simp]: "py_int (real_of_int k) = k"
  by (simp add: py_int_def)

lemma py_int_abs_le: "\<bar>real_of_int (py_int x)\<bar> \<le> \<bar>x\<bar>"
proof (cases "0 \<le> x")
  case True
  then have "0 \<le> \<lfloor>x\<rfloor>" by simp
  moreover have "real_of_int \<lfloor>x\<rfloor> \<le> x" by (rule of_int_floor_le)
  ultimately show ?thesis using True by (simp add: py_int_def)
next
  case False
  then have "\<lceil>x\<rceil> \<le> 0" by (simp add: ceiling_le_iff)
  moreover have "x \<le> real_of_int \<lceil>x\<rceil>" by (rule le_of_int_ceiling)
  ultimately show ?thesis using False by (simp add: py_int_def)
qed

lemma py_int_close: "\<bar>x - real_of_int (py_int x)\<bar> < 1"
proof (cases "0 \<le> x")
  case True
  have "real_of_int \<lfloor>x\<rfloor> \<le> x" "x < real_of_int \<lfloor>x\<rfloor> + 1" by linarith+
  then have "\<bar>x - real_of_int \<lfloor>x\<rfloor>\<bar> < 1" by linarith
  then show ?thesis using True by (simp only: py_int_def if_True)
next
  case False
  have "x \<le> real_of_int \<lceil>x\<rceil>" "real_of_int \<lceil>x\<rceil> - 1 < x" by linarith+
  then have "\<bar>x - real_of_int \<lceil>x\<rceil>\<bar> < 1" by linarith
  then show ?thesis using False by (simp only: py_int_def if_False)
qed


lemma drag_path_fst:
  "fst (drag_path U p1 p2 n shake pr sr sd shd g) =
     map (\<lambda>(x, y, d). (py_int x, py_int y, d)) (fst (raw_path U p1 p2 n shake pr sr sd shd g))"
  by (cases "raw_path U p1 p2 n shake pr sr sd shd g") (simp add: drag_path_def)





text \<open>
  Claim C8, as the code has it. The last comprehension of \<^verbatim>\<open>drag_uiautomator2\<close> applies
  \<^verbatim>\<open>int\<close> to both coordinates of every waypoint and leaves the duration as it is.
  \<^verbatim>\<open>int\<close> drops the fractional part: the emitted coordinate is the integer between 0
  and the real coordinate that is less than 1 away from it, and it is the coordinate
  itself when that is already an integer.
\<close>

theorem drag_path_truncates:
  "list_all2
     (\<lambda>(x, y, d) (x', y', d').
        x' = py_int x \<and> y' = py_int y \<and> d' = d
        \<and> \<bar>real_of_int x'\<bar> \<le> \<bar>x\<bar> \<and> \<bar>x - real_of_int x'\<bar> < 1
        \<and> \<bar>real_of_int y'\<bar> \<le> \<bar>y\<bar> \<and> \<bar>y - real_of_int y'\<bar> < 1)
     (fst (raw_path U p1 p2 segments shake point_random shake_random
             swipe_duration shake_duration g))
     (fst (drag_path U p1 p2 segments shake point_random shake_random
             swipe_duration shake_duration g))
   \<and> (\<forall>k. py_int (real_of_int k) = k)"
proof -
  have "list_all2
     (\<lambda>(x, y, d) (x', y', d').
        x' = py_int x \<and> y' = py_int y \<and> d' = d
        \<and> \<bar>real_of_int x'\<bar> \<le> \<bar>x\<bar> \<and> \<bar>x - real_of_int x'\<bar> < 1
        \<and> \<bar>real_of_int y'\<bar> \<le> \<bar>y\<bar> \<and> \<bar>y - real_of_int y'\<bar> < 1)
     raw (map (\<lambda>(x, y, d). (py_int x, py_int y, d)) raw)" for raw :: "(real \<times> real \<times> real) list"
    by (induction raw) (auto simp: py_int_abs_le py_int_close)
  then show ?thesis by (simp add: drag_path_fst)
qed

text \<open>
  Claim C8 as stated fails: with no jitter and the end point \<open>(2.75, 0)\<close>, the last
  waypoint has the real coordinate \<open>2.75\<close> before the conversion and the emitted
  coordinate 2, while the nearest integer is 3.
\<close>

theorem drag_path_rounding_counterexample:
  "fst (last (fst (raw_path
     \<lparr>random_rectangle_point = (\<lambda>r g. ((0, 0), g)),
      random_line_segments = (\<lambda>a b n r g. ([a, b], g))\<rparr>
     (0, 0) (11 / 4, 0) 1 (0, 15) (0, 0, 0, 0) (0, 0, 0, 0) (1 / 4) (1 / 10) ()))) = 11 / 4
   \<and> fst (last (fst (drag_path
     \<lparr>random_rectangle_point = (\<lambda>r g. ((0, 0), g)),
      random_line_segments = (\<lambda>a b n r g. ([a, b], g))\<rparr>
     (0, 0) (11 / 4, 0) 1 (0, 15) (0, 0, 0, 0) (0, 0, 0, 0) (1 / 4) (1 / 10) ()))) = 2
   \<and> round (11 / 4 :: real) = 3"
proof -
  have "round (11 / 4 :: real) = 3" by (simp add: round_def)
  moreover have "py_int (11 / 4) = 2" by (simp add: py_int_def)
  ultimately show ?thesis by (simp add: drag_path_def raw_path_def)
qed

end
